theory Spec2Isabelle
  imports Main
begin

unbundle bit_operations_syntax

section \<open>Machine types and parameters of the bitmap allocator\<close>

text \<open>
  The embedding follows \<^verbatim>\<open>allocator_pet.c\<close> on a 64-bit target with the default
  \<^verbatim>\<open>WORD_WIDTH\<close> of 64 and \<^verbatim>\<open>UNIT_SIZE\<close> of 16, built without \<^verbatim>\<open>DEBUG\<close>.
  Machine integers and addresses are integers with the wrap-around written out.
  A \<^verbatim>\<open>Word\<close> is a value below \<open>2 ^ 64\<close>: a load of a word takes the stored
  value modulo \<open>2 ^ 64\<close> (\<open>rdw\<close>), and the word operations that can leave the range
  (\<^verbatim>\<open>~\<close>, \<^verbatim>\<open><<\<close>, \<^verbatim>\<open>-\<close>) reduce their result.  For values of type \<^verbatim>\<open>unsigned\<close>,
  where the C arithmetic can wrap (a subtraction, or an addition of caller-chosen
  counts) the wrap-around modulo \<open>2 ^ 32\<close> is written out with \<open>uadd\<close> and \<open>usub\<close>.
  Bit offsets and bit counts inside one page never exceed
  \<open>units_per_page + WORD_WIDTH\<close>, so their additions are plain.
\<close>

type_synonym Word = int

definition WORD_WIDTH :: int where
  "WORD_WIDTH = 64"

definition WORD_MAX :: Word where
  "WORD_MAX = 2 ^ 64 - 1"

definition UNIT_SIZE :: int where
  "UNIT_SIZE = 16"

definition UINT_MAX :: int where
  "UINT_MAX = 2 ^ 32 - 1"

definition uadd :: "int \<Rightarrow> int \<Rightarrow> int" where
  "uadd a b = (a + b) mod 2 ^ 32"

definition usub :: "int \<Rightarrow> int \<Rightarrow> int" where
  "usub a b = (a - b) mod 2 ^ 32"

text \<open>The operators \<^verbatim>\<open>~\<close>, \<^verbatim>\<open><<\<close> and \<^verbatim>\<open>-\<close> on a \<^verbatim>\<open>Word\<close>.\<close>

definition word_not :: "Word \<Rightarrow> Word" where
  "word_not w = take_bit 64 (NOT w)"

definition word_shl :: "Word \<Rightarrow> nat \<Rightarrow> Word" where
  "word_shl w n = take_bit 64 (push_bit n w)"

definition word_sub :: "Word \<Rightarrow> Word \<Rightarrow> Word" where
  "word_sub a b = (a - b) mod 2 ^ 64"

text \<open>
  The bitmap of a page is read through its word index: \<open>rdw bm i\<close> is \<^verbatim>\<open>bitmap[i]\<close>.
  The C array has no bound of its own (a flexible array member inside the page), so
  the model is a total function from word indices to stored values.
\<close>

type_synonym bitmap = "nat \<Rightarrow> Word"

definition rdw :: "bitmap \<Rightarrow> nat \<Rightarrow> Word" where
  "rdw bm i = take_bit 64 (bm i)"

definition bm_bit :: "bitmap \<Rightarrow> int \<Rightarrow> bool" where
  "bm_bit bm j = bit (rdw bm (nat (j div WORD_WIDTH))) (nat (j mod WORD_WIDTH))"

text \<open>
  \<^verbatim>\<open>__builtin_ctzl\<close>: the number of trailing zero bits.  The builtin is undefined
  for 0; every call in the source is guarded by \<^verbatim>\<open>if (w)\<close>.  The scan below stops
  after 64 positions.
\<close>

primrec ctz_scan :: "nat \<Rightarrow> Word \<Rightarrow> nat" where
  "ctz_scan 0 w = 0"
| "ctz_scan (Suc k) w = (if bit w 0 then 0 else Suc (ctz_scan k (drop_bit 1 w)))"

definition count_trailing_zeros :: "Word \<Rightarrow> int" where
  "count_trailing_zeros w = int (ctz_scan 64 w)"

section \<open>Basic bitmap functions\<close>

text \<open>
  \<^verbatim>\<open>count_zero_bits\<close>: the \<^verbatim>\<open>while\<close> loop over whole words, with the word pointer
  kept as the index \<open>i\<close>.  The loop runs while \<^verbatim>\<open>offset < units_per_page && count < limit\<close>.
\<close>

function count_zero_words :: "int \<Rightarrow> bitmap \<Rightarrow> nat \<Rightarrow> int \<Rightarrow> int \<Rightarrow> int \<Rightarrow> int" where
  "count_zero_words upp bm i offset count limit =
     (if offset < upp \<and> count < limit then
        (let w = rdw bm i in
         if w \<noteq> 0 then count + count_trailing_zeros w
         else count_zero_words upp bm (i + 1) (offset + WORD_WIDTH) (count + WORD_WIDTH) limit)
      else count)"
  by pat_completeness auto
termination
  by (relation "measure (\<lambda>(upp, bm, i, offset, count, limit). nat (upp - offset))")
     (auto simp: WORD_WIDTH_def)

definition count_zero_bits :: "int \<Rightarrow> bitmap \<Rightarrow> int \<Rightarrow> int \<Rightarrow> int" where
  "count_zero_bits upp bm offset limit =
     (let i = nat (offset div WORD_WIDTH);
          bit_index = offset mod WORD_WIDTH
      in if bit_index \<noteq> 0 then
           (let w = drop_bit (nat bit_index) (rdw bm i) in
            if w \<noteq> 0 then count_trailing_zeros w
            else (let count = WORD_WIDTH - bit_index
                  in count_zero_words upp bm (i + 1) (offset + count) count limit))
         else count_zero_words upp bm i offset 0 limit)"

text \<open>\<^verbatim>\<open>count_nonzero_bits\<close>: the same code on the inverted words.\<close>

function count_nonzero_words :: "int \<Rightarrow> bitmap \<Rightarrow> nat \<Rightarrow> int \<Rightarrow> int \<Rightarrow> int \<Rightarrow> int" where
  "count_nonzero_words upp bm i offset count limit =
     (if offset < upp \<and> count < limit then
        (let w = word_not (rdw bm i) in
         if w \<noteq> 0 then count + count_trailing_zeros w
         else count_nonzero_words upp bm (i + 1) (offset + WORD_WIDTH) (count + WORD_WIDTH) limit)
      else count)"
  by pat_completeness auto
termination
  by (relation "measure (\<lambda>(upp, bm, i, offset, count, limit). nat (upp - offset))")
     (auto simp: WORD_WIDTH_def)

definition count_nonzero_bits :: "int \<Rightarrow> bitmap \<Rightarrow> int \<Rightarrow> int \<Rightarrow> int" where
  "count_nonzero_bits upp bm offset limit =
     (let i = nat (offset div WORD_WIDTH);
          bit_index = offset mod WORD_WIDTH
      in if bit_index \<noteq> 0 then
           (let w = drop_bit (nat bit_index) (word_not (rdw bm i)) in
            if w \<noteq> 0 then count_trailing_zeros w
            else (let count = WORD_WIDTH - bit_index
                  in count_nonzero_words upp bm (i + 1) (offset + count) count limit))
         else count_nonzero_words upp bm i offset 0 limit)"

text \<open>
  \<^verbatim>\<open>set_bits\<close> and \<^verbatim>\<open>clear_bits\<close>.  The loops over whole words return the bitmap,
  the word index and the remaining length.  \<open>low_mask len\<close> is
  \<^verbatim>\<open>(((Word) 1) << length) - 1\<close>.
\<close>

definition low_mask :: "int \<Rightarrow> Word" where
  "low_mask len = word_sub (word_shl 1 (nat len)) 1"

function set_words :: "bitmap \<Rightarrow> nat \<Rightarrow> int \<Rightarrow> bitmap \<times> nat \<times> int" where
  "set_words bm i len =
     (if len \<ge> WORD_WIDTH then set_words (bm(i := WORD_MAX)) (i + 1) (len - WORD_WIDTH)
      else (bm, i, len))"
  by pat_completeness auto
termination
  by (relation "measure (\<lambda>(bm, i, len). nat len)") (auto simp: WORD_WIDTH_def)

definition set_bits :: "bitmap \<Rightarrow> int \<Rightarrow> int \<Rightarrow> bitmap" where
  "set_bits bm offset len =
     (let i = nat (offset div WORD_WIDTH);
          bit_index = offset mod WORD_WIDTH;
          (bm1, i1, len1) =
            (if bit_index \<noteq> 0 then
               (let num_bits = WORD_WIDTH - bit_index;
                    bitmask = (if len \<le> num_bits then WORD_MAX AND low_mask len else WORD_MAX);
                    num_bits = (if len \<le> num_bits then len else num_bits);
                    bitmask = word_shl bitmask (nat bit_index)
                in (bm(i := rdw bm i OR bitmask), i + 1, len - num_bits))
             else (bm, i, len));
          (bm2, i2, len2) = set_words bm1 i1 len1
      in if len2 \<noteq> 0 then bm2(i2 := rdw bm2 i2 OR low_mask len2) else bm2)"

function clear_words :: "bitmap \<Rightarrow> nat \<Rightarrow> int \<Rightarrow> bitmap \<times> nat \<times> int" where
  "clear_words bm i len =
     (if len \<ge> WORD_WIDTH then clear_words (bm(i := 0)) (i + 1) (len - WORD_WIDTH)
      else (bm, i, len))"
  by pat_completeness auto
termination
  by (relation "measure (\<lambda>(bm, i, len). nat len)") (auto simp: WORD_WIDTH_def)

definition clear_bits :: "bitmap \<Rightarrow> int \<Rightarrow> int \<Rightarrow> bitmap" where
  "clear_bits bm offset len =
     (let i = nat (offset div WORD_WIDTH);
          bit_index = offset mod WORD_WIDTH;
          (bm1, i1, len1) =
            (if bit_index \<noteq> 0 then
               (let num_bits = WORD_WIDTH - bit_index;
                    bitmask = (if len \<le> num_bits then WORD_MAX AND low_mask len else WORD_MAX);
                    num_bits = (if len \<le> num_bits then len else num_bits);
                    bitmask = word_shl bitmask (nat bit_index)
                in (bm(i := rdw bm i AND word_not bitmask), i + 1, len - num_bits))
             else (bm, i, len));
          (bm2, i2, len2) = clear_words bm1 i1 len1
      in if len2 \<noteq> 0 then bm2(i2 := rdw bm2 i2 AND word_not (low_mask len2)) else bm2)"

section \<open>Bitmap allocator parameters\<close>

text \<open>
  The globals computed by \<^verbatim>\<open>_init\<close> from \<^verbatim>\<open>sys_page_size\<close>.  On the 64-bit target
  \<^verbatim>\<open>offsetof(BmPageHeader, bitmap)\<close> is 24 (three pointers).
\<close>

record params =
  sys_page_size :: int
  units_per_page :: int
  bm_page_header_size_in_units :: int
  max_data_units :: int

definition init_params :: "int \<Rightarrow> params" where
  "init_params sps =
     (let upp = sps div UNIT_SIZE;
          hdr = (24 + upp div 8 + UNIT_SIZE - 1) div UNIT_SIZE
      in \<lparr> sys_page_size = sps, units_per_page = upp,
           bm_page_header_size_in_units = hdr, max_data_units = usub upp hdr \<rparr>)"

text \<open>
  The shape \<^verbatim>\<open>_init\<close> gives the parameters for a page size that is a multiple of 1024
  bytes: the bitmap is a whole number of words, the header and the data area make up
  the page, and the header is not empty.
\<close>

definition params_ok :: "params \<Rightarrow> bool" where
  "params_ok g \<longleftrightarrow>
     WORD_WIDTH dvd units_per_page g
     \<and> bm_page_header_size_in_units g + max_data_units g = units_per_page g
     \<and> 0 < bm_page_header_size_in_units g
     \<and> 0 < max_data_units g
     \<and> sys_page_size g = units_per_page g * UNIT_SIZE
     \<and> sys_page_size g < 2 ^ 32"

section \<open>Searching a page\<close>

text \<open>
  \<^verbatim>\<open>find_free_block\<close> and \<^verbatim>\<open>find_longest_free_block\<close>.  Their \<^verbatim>\<open>while\<close> loops
  have no bound of their own, so each is a partial function into \<open>option\<close>: \<open>None\<close>
  is a loop that does not return.  In \<^verbatim>\<open>find_longest_free_block\<close> the budget
  \<^verbatim>\<open>n\<close> is an \<^verbatim>\<open>unsigned\<close> that is decremented by each count, with wrap-around.
\<close>

partial_function (option) find_free_block_from :: "int \<Rightarrow> bitmap \<Rightarrow> int \<Rightarrow> int \<Rightarrow> int option" where
  "find_free_block_from upp bm block_size offset =
     (if offset < upp then
        (let len = count_zero_bits upp bm offset block_size in
         if len \<ge> block_size then Some offset
         else (let offset1 = offset + len;
                   offset2 = offset1 + count_nonzero_bits upp bm offset1 UINT_MAX
               in find_free_block_from upp bm block_size offset2))
      else Some 0)"

declare find_free_block_from.simps [code]

definition find_free_block :: "params \<Rightarrow> bitmap \<Rightarrow> int \<Rightarrow> int option" where
  "find_free_block g bm block_size =
     find_free_block_from (units_per_page g) bm block_size (bm_page_header_size_in_units g)"

partial_function (option) find_longest_from :: "int \<Rightarrow> bitmap \<Rightarrow> int \<Rightarrow> int \<Rightarrow> int \<Rightarrow> int option" where
  "find_longest_from upp bm offset n lfb =
     (if n \<noteq> 0 then
        (let len = count_zero_bits upp bm offset n;
             lfb1 = (if len > lfb then len else lfb);
             offset1 = offset + len;
             n1 = usub n len;
             len2 = count_nonzero_bits upp bm offset1 n1;
             offset2 = offset1 + len2;
             n2 = usub n1 len2
         in find_longest_from upp bm offset2 n2 lfb1)
      else Some lfb)"

declare find_longest_from.simps [code]

definition find_longest_free_block :: "params \<Rightarrow> bitmap \<Rightarrow> int option" where
  "find_longest_free_block g bm =
     find_longest_from (units_per_page g) bm (bm_page_header_size_in_units g) (max_data_units g) 0"

section \<open>Memory, pages and the superblock\<close>

text \<open>
  Addresses are integers and 0 is \<^verbatim>\<open>nullptr\<close>.  The state of the allocator is

  \<^item> the superblock, an array of page pointers that \<^verbatim>\<open>_init\<close> maps clean: the slots
    that hold a pointer are listed with their index, every other slot is \<^verbatim>\<open>nullptr\<close>;
  \<^item> the page headers (\<^verbatim>\<open>list\<close>, \<^verbatim>\<open>next\<close>, \<^verbatim>\<open>prev\<close> and the words of the bitmap),
    listed with the address of their page.  \<^verbatim>\<open>list\<close> is a pointer into the
    superblock, kept as the index of the slot, \<open>None\<close> for \<^verbatim>\<open>nullptr\<close>.  The bitmap
    has \<open>units_per_page div WORD_WIDTH\<close> words, as the comment in the declaration
    says; a load past the last word reads 0 and a store past it is dropped;
  \<^item> the data bytes of memory, the addresses the operating system has mapped, and the
    two counters.

  A header is a typed view of the first bytes of a mapped region, kept apart from the
  data bytes \<open>mem\<close>.  Anonymous memory is zero-filled, so a region has an all-zero
  header when \<^verbatim>\<open>mmap\<close> returns it.  The mutex is not modelled: the functions run on
  one thread.
\<close>

type_synonym addr = int

type_synonym memory = "addr \<Rightarrow> int"

record BmPageHeader =
  pg_list :: "int option"
  pg_next :: addr
  pg_prev :: addr
  pg_bitmap :: "Word list"

record pet_state =
  superblock :: "(int \<times> addr) list"
  pages :: "(addr \<times> BmPageHeader) list"
  mem :: memory
  mapped :: "addr \<Rightarrow> bool"
  blocks_allocated :: int
  num_bm_pages :: int

text \<open>
  What ends a call without a result: \<^verbatim>\<open>abort()\<close>, a load or store through
  \<^verbatim>\<open>nullptr\<close>, a load or store of a header at an address that has none, a loop
  that does not return, and \<^verbatim>\<open>exit(1)\<close> (the debug allocator's end on a damaged
  red zone).
\<close>

datatype fault = Abort | NullDeref | BadPointer | Hang | Exit

definition bind_f :: "fault + 'a \<Rightarrow> ('a \<Rightarrow> fault + 'b) \<Rightarrow> fault + 'b" where
  "bind_f m f = (case m of Inl e \<Rightarrow> Inl e | Inr a \<Rightarrow> f a)"

definition bitmap_of :: "Word list \<Rightarrow> bitmap" where
  "bitmap_of ws = (\<lambda>i. if i < length ws then ws ! i else 0)"

definition words_of :: "nat \<Rightarrow> bitmap \<Rightarrow> Word list" where
  "words_of n bm = map bm [0..<n]"

definition slot :: "pet_state \<Rightarrow> int \<Rightarrow> addr" where
  "slot s k = (case map_of (superblock s) k of None \<Rightarrow> 0 | Some p \<Rightarrow> p)"

definition set_slot :: "pet_state \<Rightarrow> int \<Rightarrow> addr \<Rightarrow> pet_state" where
  "set_slot s k v =
     s\<lparr>superblock := (if v = 0 then filter (\<lambda>e. fst e \<noteq> k) (superblock s)
                       else (k, v) # filter (\<lambda>e. fst e \<noteq> k) (superblock s))\<rparr>"

definition get_hdr :: "pet_state \<Rightarrow> addr \<Rightarrow> fault + BmPageHeader" where
  "get_hdr s p =
     (if p = 0 then Inl NullDeref
      else case map_of (pages s) p of None \<Rightarrow> Inl BadPointer | Some h \<Rightarrow> Inr h)"

definition put_hdr :: "pet_state \<Rightarrow> addr \<Rightarrow> BmPageHeader \<Rightarrow> pet_state" where
  "put_hdr s p h = s\<lparr>pages := (p, h) # filter (\<lambda>e. fst e \<noteq> p) (pages s)\<rparr>"

definition set_list :: "pet_state \<Rightarrow> addr \<Rightarrow> int option \<Rightarrow> fault + pet_state" where
  "set_list s p v = bind_f (get_hdr s p) (\<lambda>h. Inr (put_hdr s p (h\<lparr>pg_list := v\<rparr>)))"

definition set_next :: "pet_state \<Rightarrow> addr \<Rightarrow> addr \<Rightarrow> fault + pet_state" where
  "set_next s p v = bind_f (get_hdr s p) (\<lambda>h. Inr (put_hdr s p (h\<lparr>pg_next := v\<rparr>)))"

definition set_prev :: "pet_state \<Rightarrow> addr \<Rightarrow> addr \<Rightarrow> fault + pet_state" where
  "set_prev s p v = bind_f (get_hdr s p) (\<lambda>h. Inr (put_hdr s p (h\<lparr>pg_prev := v\<rparr>)))"

definition set_bitmap :: "pet_state \<Rightarrow> addr \<Rightarrow> bitmap \<Rightarrow> fault + pet_state" where
  "set_bitmap s p bm =
     bind_f (get_hdr s p)
       (\<lambda>h. Inr (put_hdr s p (h\<lparr>pg_bitmap := words_of (length (pg_bitmap h)) bm\<rparr>)))"

subsection \<open>Memory cleaning and copying\<close>

text \<open>
  \<^verbatim>\<open>cleanse\<close>: bytes up to the next multiple of \<^verbatim>\<open>sizeof(Word)\<close> of \<^verbatim>\<open>start\<close>, then
  whole words (a zero word is eight zero bytes), then the remaining bytes.
  \<^verbatim>\<open>length = end - start\<close> is an \<^verbatim>\<open>unsigned\<close> subtraction.
\<close>

primrec zero_bytes :: "memory \<Rightarrow> addr \<Rightarrow> nat \<Rightarrow> memory" where
  "zero_bytes m p 0 = m"
| "zero_bytes m p (Suc n) = zero_bytes (m(p := 0)) (p + 1) n"

function zero_words :: "memory \<Rightarrow> addr \<Rightarrow> int \<Rightarrow> memory \<times> addr \<times> int" where
  "zero_words m wordptr len =
     (if len \<ge> 8 then zero_words (zero_bytes m wordptr 8) (wordptr + 8) (len - 8)
      else (m, wordptr, len))"
  by pat_completeness auto
termination
  by (relation "measure (\<lambda>(m, wordptr, len). nat len)") auto

declare zero_words.simps [simp del]

definition cleanse :: "memory \<Rightarrow> addr \<Rightarrow> int \<Rightarrow> int \<Rightarrow> memory" where
  "cleanse m a start end' =
     (let len = usub end' start;
          byteptr = a + start;
          nbytes = start mod 8;
          (m1, byteptr1, len1) =
            (if nbytes \<noteq> 0 then
               (let nbytes = 8 - nbytes;
                    nbytes = (if nbytes > len then len else nbytes)
                in (zero_bytes m byteptr (nat nbytes), byteptr + nbytes, len - nbytes))
             else (m, byteptr, len));
          (m2, wordptr, len2) = zero_words m1 byteptr1 len1
      in if len2 \<noteq> 0 then zero_bytes m2 wordptr (nat len2) else m2)"

text \<open>\<^verbatim>\<open>memcpy\<close> of the C library, for regions that do not overlap.\<close>

definition memcpy :: "memory \<Rightarrow> addr \<Rightarrow> addr \<Rightarrow> int \<Rightarrow> memory" where
  "memcpy m dst src n = (\<lambda>a. if dst \<le> a \<and> a < dst + n then m (src + (a - dst)) else m a)"

subsection \<open>Alignment helpers\<close>

text \<open>
  \<^verbatim>\<open>align_unsigned\<close> works on \<^verbatim>\<open>unsigned\<close>: the addition wraps, and the mask
  \<^verbatim>\<open>~alignment\<close> clears the low bits.
\<close>

definition align_unsigned :: "int \<Rightarrow> int \<Rightarrow> int" where
  "align_unsigned n alignment =
     (if alignment > 1 then (uadd n (alignment - 1)) AND NOT (alignment - 1) else n)"

definition align_unsigned_to_page :: "params \<Rightarrow> int \<Rightarrow> int" where
  "align_unsigned_to_page g n = align_unsigned n (sys_page_size g)"

definition bytes_to_units :: "int \<Rightarrow> int" where
  "bytes_to_units nbytes = align_unsigned nbytes UNIT_SIZE div UNIT_SIZE"

definition bm_page_from_addr :: "params \<Rightarrow> addr \<Rightarrow> addr" where
  "bm_page_from_addr g a = a AND NOT (sys_page_size g - 1)"

definition ptrdiff_to_units :: "addr \<Rightarrow> addr \<Rightarrow> int" where
  "ptrdiff_to_units a bm_page = ((a - bm_page) div UNIT_SIZE) mod 2 ^ 32"

subsection \<open>The operating system\<close>

text \<open>
  The answers of \<^verbatim>\<open>mmap\<close> and \<^verbatim>\<open>mremap\<close> are inputs of the model: \<open>None\<close> is
  \<^verbatim>\<open>MAP_FAILED\<close>.  \<^verbatim>\<open>mmap\<close> gives zero-filled memory: the region gets an all-zero
  header and zero bytes.  \<^verbatim>\<open>munmap\<close> removes the range from the mapped addresses,
  and with it the headers inside the range.
\<close>

record os_reply =
  mmap_reply :: "addr option"
  mremap_reply :: "addr option"

definition zero_header :: "params \<Rightarrow> BmPageHeader" where
  "zero_header g =
     \<lparr> pg_list = None, pg_next = 0, pg_prev = 0,
       pg_bitmap = replicate (nat (units_per_page g div WORD_WIDTH)) 0 \<rparr>"

definition map_range :: "pet_state \<Rightarrow> addr \<Rightarrow> int \<Rightarrow> pet_state" where
  "map_range s a sz = s\<lparr>mapped := (\<lambda>x. (a \<le> x \<and> x < a + sz) \<or> mapped s x)\<rparr>"

definition unmap_range :: "pet_state \<Rightarrow> addr \<Rightarrow> int \<Rightarrow> pet_state" where
  "unmap_range s a sz =
     s\<lparr>mapped := (\<lambda>x. \<not> (a \<le> x \<and> x < a + sz) \<and> mapped s x),
       pages := filter (\<lambda>e. \<not> (a \<le> fst e \<and> fst e < a + sz)) (pages s)\<rparr>"

definition call_mmap :: "params \<Rightarrow> os_reply \<Rightarrow> pet_state \<Rightarrow> int \<Rightarrow> bool \<Rightarrow> addr \<times> pet_state" where
  "call_mmap g os s sz clean =
     (case mmap_reply os of
        None \<Rightarrow> (0, s)
      | Some result \<Rightarrow>
          (let s1 = put_hdr (map_range s result sz) result (zero_header g);
               s2 = s1\<lparr>mem := (\<lambda>x. if result \<le> x \<and> x < result + sz then 0 else mem s1 x)\<rparr>
           in (result, if clean then s2\<lparr>mem := cleanse (mem s2) result 0 sz\<rparr> else s2)))"

definition call_munmap :: "pet_state \<Rightarrow> addr \<Rightarrow> int \<Rightarrow> pet_state" where
  "call_munmap s a sz = unmap_range s a sz"

text \<open>
  \<^verbatim>\<open>mremap\<close>: a mapping that moves takes its header and its bytes along; a mapping
  that shrinks in place loses its tail; the pages that a growing mapping gains are
  zero-filled.
\<close>

definition call_mremap :: "params \<Rightarrow> os_reply \<Rightarrow> pet_state \<Rightarrow> addr \<Rightarrow> int \<Rightarrow> int \<Rightarrow> bool
    \<Rightarrow> addr \<times> pet_state" where
  "call_mremap g os s a old_nbytes new_nbytes clean =
     (let old_size = align_unsigned_to_page g old_nbytes;
          new_size = align_unsigned_to_page g new_nbytes
      in if new_size = old_size then
           (a, if clean \<and> new_nbytes > old_nbytes
               then s\<lparr>mem := cleanse (mem s) a old_nbytes new_nbytes\<rparr> else s)
         else
           (let clean1 = (if new_size > old_size then clean else False)
            in case mremap_reply os of
                 None \<Rightarrow> (if new_size > old_size then (0, s) else (a, s))
               | Some new_addr \<Rightarrow>
                   (let h = (case map_of (pages s) a of None \<Rightarrow> zero_header g | Some h0 \<Rightarrow> h0);
                        s1 = put_hdr (map_range (unmap_range s a old_size) new_addr new_size)
                               new_addr h;
                        s2 = s1\<lparr>mem :=
                                  (\<lambda>x. if new_addr \<le> x \<and> x < new_addr + min old_size new_size
                                       then mem s (a + (x - new_addr))
                                       else if new_addr \<le> x \<and> x < new_addr + new_size then 0
                                       else mem s x)\<rparr>
                    in (new_addr,
                        if clean1 then s2\<lparr>mem := cleanse (mem s2) new_addr old_nbytes new_nbytes\<rparr>
                        else s2))))"

subsection \<open>The lists of the superblock\<close>

text \<open>
  \<^verbatim>\<open>add_to_superblock_entry\<close> and \<^verbatim>\<open>delete_from_list\<close>, statement by statement: each
  field is read from the state the statements before it have left.
\<close>

definition add_to_superblock_entry :: "pet_state \<Rightarrow> addr \<Rightarrow> int \<Rightarrow> fault + pet_state" where
  "add_to_superblock_entry s bm_page lfb =
     (let first = slot s lfb in
      if first \<noteq> 0 then
        bind_f (get_hdr s first) (\<lambda>fh.
        bind_f (set_prev s bm_page (pg_prev fh)) (\<lambda>s1.
        bind_f (set_next s1 bm_page first) (\<lambda>s2.
        bind_f (get_hdr s2 first) (\<lambda>fh2.
        bind_f (set_next s2 (pg_prev fh2) bm_page) (\<lambda>s3.
        bind_f (set_prev s3 first bm_page) (\<lambda>s4.
        set_list s4 bm_page (Some lfb)))))))
      else
        bind_f (set_prev s bm_page bm_page) (\<lambda>s1.
        bind_f (set_next s1 bm_page bm_page) (\<lambda>s2.
        set_list (set_slot s2 lfb bm_page) bm_page (Some lfb))))"

definition delete_from_list :: "pet_state \<Rightarrow> addr \<Rightarrow> fault + pet_state" where
  "delete_from_list s bm_page =
     bind_f (get_hdr s bm_page) (\<lambda>h.
       case pg_list h of
         None \<Rightarrow> Inl NullDeref
       | Some k \<Rightarrow>
           if pg_next h = pg_prev h then Inr (set_slot s k 0)
           else
             (let s1 = (if slot s k = bm_page then set_slot s k (pg_next h) else s)
              in bind_f (set_prev s1 (pg_next h) (pg_prev h)) (\<lambda>s2.
                 bind_f (get_hdr s2 bm_page) (\<lambda>h2.
                 set_next s2 (pg_prev h2) (pg_next h2)))))"

definition grab_superblock_page :: "pet_state \<Rightarrow> addr \<Rightarrow> fault + pet_state" where
  "grab_superblock_page s bm_page = delete_from_list s bm_page"

definition add_to_superblock :: "params \<Rightarrow> pet_state \<Rightarrow> addr \<Rightarrow> fault + pet_state" where
  "add_to_superblock g s bm_page =
     bind_f (get_hdr s bm_page) (\<lambda>h.
       case find_longest_free_block g (bitmap_of (pg_bitmap h)) of
         None \<Rightarrow> Inl Hang
       | Some lfb \<Rightarrow> add_to_superblock_entry s bm_page lfb)"

text \<open>
  \<^verbatim>\<open>find_available_page\<close>: the loop looks for the first slot from \<^verbatim>\<open>num_units\<close> to
  \<^verbatim>\<open>max_data_units\<close> that holds a page; that page is deleted from its list.
\<close>

function first_used_slot :: "int \<Rightarrow> (int \<times> addr) list \<Rightarrow> int \<Rightarrow> addr" where
  "first_used_slot mdu sb lfb =
     (if lfb \<le> mdu then
        (case map_of sb lfb of
           Some bm_page \<Rightarrow> if bm_page \<noteq> 0 then bm_page else first_used_slot mdu sb (lfb + 1)
         | None \<Rightarrow> first_used_slot mdu sb (lfb + 1))
      else 0)"
  by pat_completeness auto
termination
  by (relation "measure (\<lambda>(mdu, sb, lfb). nat (mdu + 1 - lfb))") auto

declare first_used_slot.simps [simp del]

definition find_available_page :: "params \<Rightarrow> pet_state \<Rightarrow> int \<Rightarrow> fault + (addr \<times> pet_state)" where
  "find_available_page g s num_units =
     (let bm_page = first_used_slot (max_data_units g) (superblock s) num_units
      in if bm_page \<noteq> 0 then bind_f (delete_from_list s bm_page) (\<lambda>s1. Inr (bm_page, s1))
         else Inr (0, s))"

section \<open>Bitmap allocator functions\<close>

text \<open>
  \<^verbatim>\<open>bm_allocate\<close>.  The counters are \<^verbatim>\<open>size_t\<close> and wrap modulo \<open>2 ^ 64\<close>.  The
  result 0 is \<^verbatim>\<open>nullptr\<close>.  \<open>bm_allocate_out\<close> is the code after the label
  \<^verbatim>\<open>out\<close>.
\<close>

primrec clean_bitmap :: "bitmap \<Rightarrow> nat \<Rightarrow> bitmap" where
  "clean_bitmap bm 0 = bm"
| "clean_bitmap bm (Suc n) = (clean_bitmap bm n)(n := 0)"

definition bm_allocate_out :: "pet_state \<Rightarrow> addr \<Rightarrow> int \<Rightarrow> bool \<Rightarrow> addr \<times> pet_state" where
  "bm_allocate_out s result num_units clean =
     (let s1 = (if result \<noteq> 0
                then s\<lparr>blocks_allocated := (blocks_allocated s + 1) mod 2 ^ 64\<rparr> else s)
      in (result,
          if result \<noteq> 0 \<and> clean
          then s1\<lparr>mem := cleanse (mem s1) result 0 ((num_units * UNIT_SIZE) mod 2 ^ 32)\<rparr>
          else s1))"

definition bm_allocate :: "params \<Rightarrow> os_reply \<Rightarrow> pet_state \<Rightarrow> int \<Rightarrow> bool
    \<Rightarrow> fault + (addr \<times> pet_state)" where
  "bm_allocate g os s num_units clean =
     bind_f (find_available_page g s num_units) (\<lambda>(bm_page, s1).
       if bm_page \<noteq> 0 then
         bind_f (get_hdr s1 bm_page) (\<lambda>h.
           case find_free_block g (bitmap_of (pg_bitmap h)) num_units of
             None \<Rightarrow> Inl Hang
           | Some offset \<Rightarrow>
               if offset = 0 then Inl Abort
               else
                 bind_f (set_bitmap s1 bm_page (set_bits (bitmap_of (pg_bitmap h)) offset num_units))
                   (\<lambda>s2.
                 bind_f (add_to_superblock g s2 bm_page) (\<lambda>s3.
                 Inr (bm_allocate_out s3 (bm_page + offset * UNIT_SIZE) num_units clean))))
       else
         (case call_mmap g os s1 (sys_page_size g) False of
            (bm_page, s2) \<Rightarrow>
              if bm_page = 0 then Inr (bm_allocate_out s2 0 num_units clean)
              else
                bind_f (get_hdr s2 bm_page) (\<lambda>h.
                bind_f (set_bitmap s2 bm_page
                          (set_bits
                             (clean_bitmap (bitmap_of (pg_bitmap h))
                                (nat (units_per_page g div WORD_WIDTH)))
                             0 (uadd (bm_page_header_size_in_units g) num_units))) (\<lambda>s3.
                bind_f (add_to_superblock_entry s3 bm_page (usub (max_data_units g) num_units))
                   (\<lambda>s4.
                Inr (bm_allocate_out
                       (s4\<lparr>num_bm_pages := (num_bm_pages s4 + 1) mod 2 ^ 64\<rparr>)
                       (bm_page + bm_page_header_size_in_units g * UNIT_SIZE)
                       num_units clean))))))"

definition bm_shrink :: "params \<Rightarrow> pet_state \<Rightarrow> addr \<Rightarrow> int \<Rightarrow> int \<Rightarrow> int \<Rightarrow> fault + pet_state" where
  "bm_shrink g s bm_page offset old_num_units new_num_units =
     bind_f (grab_superblock_page s bm_page) (\<lambda>s1.
     bind_f (get_hdr s1 bm_page) (\<lambda>h.
       (let tail_units = usub old_num_units new_num_units
        in bind_f (set_bitmap s1 bm_page
                     (clear_bits (bitmap_of (pg_bitmap h)) (uadd offset new_num_units) tail_units))
             (\<lambda>s2. add_to_superblock g s2 bm_page))))"

text \<open>
  \<^verbatim>\<open>bm_grow\<close>.  When the bits after the block are not free the source unlocks the
  mutex and returns \<^verbatim>\<open>false\<close>; the page taken out by \<^verbatim>\<open>grab_superblock_page\<close> is
  not put back.
\<close>

definition bm_grow :: "params \<Rightarrow> pet_state \<Rightarrow> addr \<Rightarrow> int \<Rightarrow> int \<Rightarrow> int
    \<Rightarrow> fault + (bool \<times> pet_state)" where
  "bm_grow g s bm_page offset old_num_units new_num_units =
     bind_f (grab_superblock_page s bm_page) (\<lambda>s1.
     bind_f (get_hdr s1 bm_page) (\<lambda>h.
       (let increment = usub new_num_units old_num_units;
            len = count_zero_bits (units_per_page g) (bitmap_of (pg_bitmap h))
                    (uadd offset old_num_units) increment
        in if len < increment then Inr (False, s1)
           else
             bind_f (set_bitmap s1 bm_page
                       (set_bits (bitmap_of (pg_bitmap h)) (uadd offset old_num_units) increment))
               (\<lambda>s2.
             bind_f (add_to_superblock g s2 bm_page) (\<lambda>s3. Inr (True, s3))))))"

definition bm_release :: "params \<Rightarrow> pet_state \<Rightarrow> addr \<Rightarrow> int \<Rightarrow> int \<Rightarrow> fault + pet_state" where
  "bm_release g s bm_page offset num_units =
     bind_f (grab_superblock_page s bm_page) (\<lambda>s1.
     bind_f (get_hdr s1 bm_page) (\<lambda>h.
     bind_f (set_bitmap s1 bm_page (clear_bits (bitmap_of (pg_bitmap h)) offset num_units)) (\<lambda>s2.
     bind_f (get_hdr s2 bm_page) (\<lambda>h2.
       case find_longest_free_block g (bitmap_of (pg_bitmap h2)) of
         None \<Rightarrow> Inl Hang
       | Some lfb \<Rightarrow>
           bind_f (if lfb < max_data_units g then add_to_superblock_entry s2 bm_page lfb
                   else Inr ((call_munmap s2 bm_page (sys_page_size g))
                               \<lparr>num_bm_pages := (num_bm_pages s2 - 1) mod 2 ^ 64\<rparr>))
             (\<lambda>s3. Inr (s3\<lparr>blocks_allocated := (blocks_allocated s3 - 1) mod 2 ^ 64\<rparr>))))))"

section \<open>Allocator interface functions\<close>

text \<open>
  \<^verbatim>\<open>_allocate\<close>, \<^verbatim>\<open>_release\<close> and \<^verbatim>\<open>_reallocate\<close> of the bitmap allocator, named
  \<open>pet_allocate\<close>, \<open>pet_release\<close> and \<open>pet_reallocate\<close>.  \<open>pet_release\<close> returns the
  new value of \<^verbatim>\<open>*addr_ptr\<close>; \<open>pet_reallocate\<close> returns the result, the new value of
  \<^verbatim>\<open>*addr_ptr\<close> and the value stored in \<^verbatim>\<open>*addr_changed\<close>.
\<close>

definition pet_allocate :: "params \<Rightarrow> os_reply \<Rightarrow> pet_state \<Rightarrow> int \<Rightarrow> bool
    \<Rightarrow> fault + (addr \<times> pet_state)" where
  "pet_allocate g os s nbytes clean =
     (if nbytes = 0 then Inr (0, s)
      else
        (let num_units = bytes_to_units nbytes in
         if num_units < max_data_units g then bm_allocate g os s num_units clean
         else
           (case call_mmap g os s (align_unsigned_to_page g nbytes) clean of
              (result, s1) \<Rightarrow>
                Inr (result,
                     if result \<noteq> 0
                     then s1\<lparr>blocks_allocated := (blocks_allocated s1 + 1) mod 2 ^ 64\<rparr>
                     else s1))))"

definition pet_release :: "params \<Rightarrow> pet_state \<Rightarrow> addr \<Rightarrow> int \<Rightarrow> fault + (addr \<times> pet_state)" where
  "pet_release g s a nbytes =
     (if a = 0 then Inr (a, s)
      else if nbytes = 0 then Inl Abort
      else
        (let bm_page = bm_page_from_addr g a in
         if a = bm_page then
           (let s1 = call_munmap s a (align_unsigned_to_page g nbytes)
            in Inr (0, s1\<lparr>blocks_allocated := (blocks_allocated s1 - 1) mod 2 ^ 64\<rparr>))
         else
           (case bm_release g s bm_page (ptrdiff_to_units a bm_page) (bytes_to_units nbytes) of
              Inl e \<Rightarrow> Inl e
            | Inr s1 \<Rightarrow> Inr (0, s1))))"

text \<open>The code at the label \<^verbatim>\<open>remap\<close>: shrink the mapping in place, same address.\<close>

definition realloc_remap :: "params \<Rightarrow> os_reply \<Rightarrow> pet_state \<Rightarrow> addr \<Rightarrow> int \<Rightarrow> int
    \<Rightarrow> fault + (bool \<times> addr \<times> bool \<times> pet_state)" where
  "realloc_remap g os s a old_nbytes new_nbytes =
     (case call_mremap g os s a old_nbytes new_nbytes False of
        (r, s1) \<Rightarrow> Inr (True, a, False, s1))"

text \<open>
  The code under the comment \<^verbatim>\<open>reallocate block\<close>: allocate, copy \<^verbatim>\<open>old_nbytes\<close>,
  release the old block.  \<^verbatim>\<open>_release\<close> clears the local \<^verbatim>\<open>addr\<close>, which is then
  compared with the new block.
\<close>

definition realloc_block :: "params \<Rightarrow> os_reply \<Rightarrow> pet_state \<Rightarrow> addr \<Rightarrow> int \<Rightarrow> int \<Rightarrow> bool
    \<Rightarrow> fault + (bool \<times> addr \<times> bool \<times> pet_state)" where
  "realloc_block g os s a old_nbytes new_nbytes clean =
     (case pet_allocate g os s new_nbytes False of
        Inl e \<Rightarrow> Inl e
      | Inr (new_block, s1) \<Rightarrow>
          if new_block = 0 then Inr (False, a, False, s1)
          else
            (let s2 = s1\<lparr>mem := memcpy (mem s1) new_block a old_nbytes\<rparr>
             in case pet_release g s2 a old_nbytes of
                  Inl e \<Rightarrow> Inl e
                | Inr (a', s3) \<Rightarrow>
                    Inr (True, new_block, new_block \<noteq> a',
                         if clean then s3\<lparr>mem := cleanse (mem s3) new_block old_nbytes new_nbytes\<rparr>
                         else s3)))"

definition pet_reallocate :: "params \<Rightarrow> os_reply \<Rightarrow> pet_state \<Rightarrow> addr \<Rightarrow> int \<Rightarrow> int \<Rightarrow> bool
    \<Rightarrow> fault + (bool \<times> addr \<times> bool \<times> pet_state)" where
  "pet_reallocate g os s a old_nbytes new_nbytes clean =
     (if old_nbytes = new_nbytes then Inr (True, a, False, s)
      else if a = 0 then
        (if old_nbytes \<noteq> 0 then Inr (False, a, False, s)
         else
           (case pet_allocate g os s new_nbytes clean of
              Inl e \<Rightarrow> Inl e
            | Inr (a1, s1) \<Rightarrow>
                if a1 = 0 then Inr (False, a, False, s1) else Inr (True, a1, True, s1)))
      else if (old_nbytes OR new_nbytes) = 0 then Inr (False, a, False, s)
      else
        (let new_num_units = bytes_to_units new_nbytes;
             old_num_units = bytes_to_units old_nbytes
         in if new_num_units = old_num_units then
              Inr (True, a, False,
                   if clean \<and> new_nbytes > old_nbytes
                   then s\<lparr>mem := cleanse (mem s) a old_nbytes new_nbytes\<rparr> else s)
            else
              (let bm_page = bm_page_from_addr g a in
               if new_num_units < old_num_units then
                 (if new_num_units < max_data_units g then
                    (if old_num_units < max_data_units g then
                       (if a = bm_page then Inl Abort
                        else
                          (case bm_shrink g s bm_page (ptrdiff_to_units a bm_page)
                                  old_num_units new_num_units of
                             Inl e \<Rightarrow> Inl e
                           | Inr s1 \<Rightarrow> Inr (True, a, False, s1)))
                     else
                       (if a \<noteq> bm_page then Inl Abort
                        else
                          (case bm_allocate g os s new_num_units False of
                             Inl e \<Rightarrow> Inl e
                           | Inr (new_block, s1) \<Rightarrow>
                               if new_block = 0 then realloc_remap g os s1 a old_nbytes new_nbytes
                               else
                                 (let s2 = s1\<lparr>mem := memcpy (mem s1) new_block a new_nbytes\<rparr>
                                  in case bm_release g s2 bm_page (ptrdiff_to_units a bm_page)
                                          new_num_units of
                                       Inl e \<Rightarrow> Inl e
                                     | Inr s3 \<Rightarrow> Inr (True, new_block, True, s3)))))
                  else
                    (if a \<noteq> bm_page then Inl Abort
                     else realloc_remap g os s a old_nbytes new_nbytes))
               else if old_num_units < max_data_units g then
                 (if new_num_units < max_data_units g then
                    (if a = bm_page then Inl Abort
                     else
                       (case bm_grow g s bm_page (ptrdiff_to_units a bm_page)
                               old_num_units new_num_units of
                          Inl e \<Rightarrow> Inl e
                        | Inr (grown, s1) \<Rightarrow>
                            if grown then
                              Inr (True, a, False,
                                   if clean then s1\<lparr>mem := cleanse (mem s1) a old_nbytes new_nbytes\<rparr>
                                   else s1)
                            else realloc_block g os s1 a old_nbytes new_nbytes clean))
                  else realloc_block g os s a old_nbytes new_nbytes clean)
               else
                 (if a \<noteq> bm_page then Inl Abort
                  else
                    (case call_mremap g os s a old_nbytes new_nbytes clean of
                       (new_addr, s1) \<Rightarrow>
                         if new_addr = 0 then Inr (False, a, False, s1)
                         else Inr (True, new_addr, new_addr \<noteq> a, s1))))))"

text \<open>
  The state after \<^verbatim>\<open>_init\<close>: an empty superblock (the page is mapped clean), no
  page mapped for blocks, counters at 0.
\<close>

definition init_state :: pet_state where
  "init_state =
     \<lparr> superblock = [],
       pages = [],
       mem = (\<lambda>_. 0),
       mapped = (\<lambda>_. False),
       blocks_allocated = 0,
       num_bm_pages = 0 \<rparr>"

section \<open>The debug allocator\<close>

text \<open>
  The debug allocator (\<^verbatim>\<open>debug_allocator\<close>) keeps every block inside a region of the
  C library's heap: a \<^verbatim>\<open>MemBlockInfo\<close> of 16 bytes, \<^verbatim>\<open>BUBBLEWRAP\<close> bytes of red
  zone, the block, and \<^verbatim>\<open>BUBBLEWRAP\<close> bytes of red zone again.  Its state is the
  memory and the block counter.  The answer of \<^verbatim>\<open>malloc\<close> or \<^verbatim>\<open>calloc\<close> is an input
  of the model (\<open>None\<close> is a null result); \<^verbatim>\<open>free\<close> changes no byte.
  \<^verbatim>\<open>calc_memsize\<close> is computed in \<^verbatim>\<open>size_t\<close> and stored in an \<^verbatim>\<open>unsigned\<close>.
\<close>

definition BUBBLEWRAP :: int where
  "BUBBLEWRAP = 32"

definition MemBlockInfo_size :: int where
  "MemBlockInfo_size = 16"

record dbg_state =
  dmem :: memory
  dblocks :: int

definition calc_memsize :: "int \<Rightarrow> int" where
  "calc_memsize nbytes = (MemBlockInfo_size + nbytes + BUBBLEWRAP * 2) mod 2 ^ 32"

definition region_from_block :: "addr \<Rightarrow> addr" where
  "region_from_block block = block - MemBlockInfo_size - BUBBLEWRAP"

definition block_from_region :: "addr \<Rightarrow> addr" where
  "block_from_region region_start = region_start + MemBlockInfo_size + BUBBLEWRAP"

definition memset :: "memory \<Rightarrow> addr \<Rightarrow> int \<Rightarrow> int \<Rightarrow> memory" where
  "memset m p v n = (\<lambda>x. if p \<le> x \<and> x < p + n then v else m x)"

text \<open>A store of \<open>n\<close> bytes of the value \<open>v\<close>, least significant byte first.\<close>

primrec store_le :: "memory \<Rightarrow> addr \<Rightarrow> nat \<Rightarrow> int \<Rightarrow> memory" where
  "store_le m p 0 v = m"
| "store_le m p (Suc n) v = store_le (m(p := v mod 256)) (p + 1) n (v div 256)"

text \<open>
  The two loops of \<^verbatim>\<open>check_region\<close>: the lower one visits the indices from
  \<open>sizeof(MemBlockInfo) + BUBBLEWRAP - 1\<close> down to \<open>sizeof(MemBlockInfo)\<close>, the upper
  one the addresses from \<^verbatim>\<open>block_end\<close> up to \<^verbatim>\<open>region_end\<close>.  Each counts the bytes
  that are not \<^verbatim>\<open>0xFF\<close>.
\<close>

function count_damaged_lower :: "memory \<Rightarrow> addr \<Rightarrow> int \<Rightarrow> int" where
  "count_damaged_lower m region_start i =
     (if i \<ge> MemBlockInfo_size then
        (if m (region_start + i) \<noteq> 255 then 1 else 0)
        + count_damaged_lower m region_start (i - 1)
      else 0)"
  by pat_completeness auto
termination
  by (relation "measure (\<lambda>(m, region_start, i). nat (i + 1))")
     (auto simp: MemBlockInfo_size_def)

declare count_damaged_lower.simps [simp del]

function count_damaged_upper :: "memory \<Rightarrow> addr \<Rightarrow> addr \<Rightarrow> int" where
  "count_damaged_upper m p region_end =
     (if p < region_end then
        (if m p \<noteq> 255 then 1 else 0) + count_damaged_upper m (p + 1) region_end
      else 0)"
  by pat_completeness auto
termination
  by (relation "measure (\<lambda>(m, p, region_end). nat (region_end - p))") auto

declare count_damaged_upper.simps [simp del]

text \<open>\<open>check_region\<close> is \<open>True\<close> when the source prints the damage and calls \<^verbatim>\<open>exit(1)\<close>.\<close>

definition check_region :: "memory \<Rightarrow> addr \<Rightarrow> int \<Rightarrow> bool" where
  "check_region m block nbytes =
     (let memsize = calc_memsize nbytes;
          region_start = region_from_block block;
          region_end = region_start + memsize;
          block_start = block_from_region region_start;
          block_end = block_start + nbytes;
          num_damaged_lower =
            count_damaged_lower m region_start (MemBlockInfo_size + BUBBLEWRAP - 1);
          num_damaged_upper = count_damaged_upper m block_end region_end
      in num_damaged_upper \<noteq> 0 \<or> num_damaged_lower \<noteq> 0)"

definition dbg_allocate :: "addr option \<Rightarrow> dbg_state \<Rightarrow> int \<Rightarrow> bool \<Rightarrow> fault + (addr \<times> dbg_state)" where
  "dbg_allocate reply st nbytes clean =
     (let memsize = calc_memsize nbytes in
      case reply of
        None \<Rightarrow> Inr (0, st)
      | Some region_start \<Rightarrow>
          (let m0 = (if clean then memset (dmem st) region_start 0 memsize else dmem st);
               region_end = region_start + memsize;
               block_start = region_start + MemBlockInfo_size + BUBBLEWRAP;
               block_end = block_start + nbytes
           in if region_end \<le> block_end then Inl Exit
              else
                (let m1 = memset m0 region_start 255 (block_start - region_start);
                     m2 = memset m1 block_end 255 (region_end - block_end);
                     m3 = store_le m2 region_start 8 block_start;
                     m4 = store_le m3 (region_start + 8) 4 nbytes
                 in Inr (block_start,
                         st\<lparr>dmem := m4, dblocks := (dblocks st + 1) mod 2 ^ 64\<rparr>))))"

definition dbg_release :: "dbg_state \<Rightarrow> addr \<Rightarrow> int \<Rightarrow> fault + (addr \<times> dbg_state)" where
  "dbg_release st a nbytes =
     (if a = 0 then Inr (a, st)
      else if check_region (dmem st) a nbytes then Inl Exit
      else Inr (0, st\<lparr>dblocks := (dblocks st - 1) mod 2 ^ 64\<rparr>))"

text \<open>
  \<^verbatim>\<open>_reallocate\<close> of the debug allocator.  The length of the final \<^verbatim>\<open>memset\<close> is the
  \<^verbatim>\<open>unsigned\<close> difference \<^verbatim>\<open>new_nbytes - old_nbytes\<close>.  The memory of the model is
  total: a \<^verbatim>\<open>memcpy\<close> or \<^verbatim>\<open>memset\<close> that runs past the region given by the C library
  stores its bytes and returns, where C leaves the behaviour undefined.  For
  \<open>new_nbytes < old_nbytes\<close> with \<open>clean\<close> the \<^verbatim>\<open>memset\<close> has a length of almost
  \<open>2 ^ 32\<close> bytes, which a process does not survive; the theorems below on a shrinking
  reallocation are therefore stated for calls without \<open>clean\<close> only.
\<close>

definition dbg_reallocate :: "addr option \<Rightarrow> dbg_state \<Rightarrow> addr \<Rightarrow> int \<Rightarrow> int \<Rightarrow> bool
    \<Rightarrow> fault + (bool \<times> addr \<times> bool \<times> dbg_state)" where
  "dbg_reallocate reply st a old_nbytes new_nbytes clean =
     (if old_nbytes = new_nbytes then Inr (True, a, False, st)
      else if a = 0 then
        (if old_nbytes \<noteq> 0 then Inr (False, a, False, st)
         else
           bind_f (dbg_allocate reply st new_nbytes clean) (\<lambda>(a1, st1).
             if a1 = 0 then Inr (False, a, False, st1) else Inr (True, a1, True, st1)))
      else
        bind_f (dbg_allocate reply st new_nbytes False) (\<lambda>(new_addr, st1).
          if new_addr = 0 then Inr (False, a, False, st1)
          else
            (let st2 = st1\<lparr>dmem := memcpy (dmem st1) new_addr a old_nbytes\<rparr>
             in bind_f (dbg_release st2 a old_nbytes) (\<lambda>(a2, st3).
                  Inr (True, new_addr, True,
                       if clean
                       then st3\<lparr>dmem := memset (dmem st3) (new_addr + old_nbytes) 0
                                           (usub new_nbytes old_nbytes)\<rparr>
                       else st3)))))"

text \<open>
  A run for the evaluation of the debug allocator: a block of 20 bytes at address
  1000, every byte of which is 7, inside intact red zones, is reallocated to 8 bytes;
  the C library answers with the region at 5000.
\<close>

definition dbg_st0 :: dbg_state where
  "dbg_st0 = \<lparr>dmem = (\<lambda>x. if 1000 \<le> x \<and> x < 1020 then 7 else 255), dblocks = 1\<rparr>"

definition dbg_st1 :: dbg_state where
  "dbg_st1 = (case dbg_reallocate (Some 5000) dbg_st0 1000 20 8 False of
                Inr (ok, a, ch, st) \<Rightarrow> st
              | Inl e \<Rightarrow> dbg_st0)"

text \<open>
  A second run: a block of 100 bytes at address 1000, every byte of which is
  \<^verbatim>\<open>0xFF\<close> but the byte at index 50, which is 7, inside intact red zones, is
  reallocated to 8 bytes; the C library answers with the region at 5000.
\<close>

definition dbg_st2 :: dbg_state where
  "dbg_st2 = \<lparr>dmem = (\<lambda>x. if x = 1050 then 7 else 255), dblocks = 1\<rparr>"

definition dbg_st3 :: dbg_state where
  "dbg_st3 = (case dbg_reallocate (Some 5000) dbg_st2 1000 100 8 False of
                Inr (ok, a, ch, st) \<Rightarrow> st
              | Inl e \<Rightarrow> dbg_st2)"

section \<open>Callers\<close>

text \<open>
  A caller is a list of requests to the three interface functions, each with the
  answers the operating system gives during the request.  \<open>run_requests\<close> runs them
  in order from a state and stops at the first fault.
\<close>

datatype request = Allocate int bool | Release addr int | Reallocate addr int int bool

definition run_request :: "params \<Rightarrow> os_reply \<Rightarrow> pet_state \<Rightarrow> request \<Rightarrow> fault + pet_state" where
  "run_request g os s r =
     (case r of
        Allocate nbytes clean \<Rightarrow>
          bind_f (pet_allocate g os s nbytes clean) (\<lambda>(a, s1). Inr s1)
      | Release a nbytes \<Rightarrow>
          bind_f (pet_release g s a nbytes) (\<lambda>(a1, s1). Inr s1)
      | Reallocate a old_nbytes new_nbytes clean \<Rightarrow>
          bind_f (pet_reallocate g os s a old_nbytes new_nbytes clean)
            (\<lambda>(ok, a1, changed, s1). Inr s1))"

fun run_requests :: "params \<Rightarrow> pet_state \<Rightarrow> (os_reply \<times> request) list \<Rightarrow> fault + pet_state" where
  "run_requests g s [] = Inr s"
| "run_requests g s ((os, r) # rs) = bind_f (run_request g os s r) (\<lambda>s1. run_requests g s1 rs)"

definition os_page :: "addr \<Rightarrow> os_reply" where
  "os_page a = \<lparr> mmap_reply = Some a, mremap_reply = None \<rparr>"

definition os_none :: os_reply where
  "os_none = \<lparr> mmap_reply = None, mremap_reply = None \<rparr>"

text \<open>
  Pages of 4096 bytes: 256 units per page, 4 header units, 252 data units.
  \<open>fill_page p\<close> allocates 150 units and then 102 units; with every bucket from 102
  up empty, the first request maps a page at \<open>p\<close> and the second fills it, so the page
  ends in bucket 0 with blocks at unit offsets 4 and 154.
\<close>

definition g4k :: params where
  "g4k = init_params 4096"

definition fill_page :: "addr \<Rightarrow> (os_reply \<times> request) list" where
  "fill_page p = [(os_page p, Allocate 2400 False), (os_none, Allocate 1632 False)]"

definition lfb_at :: "pet_state \<Rightarrow> addr \<Rightarrow> int option" where
  "lfb_at s p =
     (case map_of (pages s) p of
        None \<Rightarrow> None
      | Some h \<Rightarrow> find_longest_free_block g4k (bitmap_of (pg_bitmap h)))"

definition next_at :: "pet_state \<Rightarrow> addr \<Rightarrow> addr option" where
  "next_at s p = map_option pg_next (map_of (pages s) p)"

definition list_at :: "pet_state \<Rightarrow> addr \<Rightarrow> int option option" where
  "list_at s p = map_option pg_list (map_of (pages s) p)"

definition bitmap_at :: "pet_state \<Rightarrow> addr \<Rightarrow> Word list option" where
  "bitmap_at s p = map_option pg_bitmap (map_of (pages s) p)"

section \<open>Page alignment of the stored page pointers\<close>

text \<open>
  \<^verbatim>\<open>_release\<close> and \<^verbatim>\<open>_reallocate\<close> take a block for a mapping of its own when
  \<^verbatim>\<open>bm_page_from_addr\<close> gives the address itself.  \<open>links_aligned\<close> says that every
  page pointer the allocator has stored (the slots of the superblock, and the
  \<^verbatim>\<open>next\<close> and \<^verbatim>\<open>prev\<close> fields of the headers) is such an address; \<open>os_aligned\<close> says
  that the answers of \<^verbatim>\<open>mmap\<close> and \<^verbatim>\<open>mremap\<close> are.
\<close>

definition page_aligned :: "params \<Rightarrow> addr \<Rightarrow> bool" where
  "page_aligned g a \<longleftrightarrow> bm_page_from_addr g a = a"

definition links_aligned :: "params \<Rightarrow> pet_state \<Rightarrow> bool" where
  "links_aligned g s \<longleftrightarrow>
     list_all (\<lambda>e. page_aligned g (snd e)) (superblock s)
     \<and> list_all (\<lambda>e. page_aligned g (pg_next (snd e)) \<and> page_aligned g (pg_prev (snd e)))
         (pages s)"

definition os_aligned :: "params \<Rightarrow> os_reply \<Rightarrow> bool" where
  "os_aligned g os \<longleftrightarrow>
     (case mmap_reply os of None \<Rightarrow> True | Some a \<Rightarrow> page_aligned g a)
     \<and> (case mremap_reply os of None \<Rightarrow> True | Some a \<Rightarrow> page_aligned g a)"

text \<open>
  The block a request hands to its caller, with the size the caller asked for:
  the non-null result of \<^verbatim>\<open>_allocate\<close>, and the address \<^verbatim>\<open>_reallocate\<close> stores in
  \<^verbatim>\<open>*addr_ptr\<close> when it returns \<open>true\<close> with \<^verbatim>\<open>*addr_changed\<close> set.
\<close>

definition returned_block :: "params \<Rightarrow> os_reply \<Rightarrow> pet_state \<Rightarrow> request \<Rightarrow> (addr \<times> int) option" where
  "returned_block g os s r =
     (case r of
        Allocate nbytes clean \<Rightarrow>
          (case pet_allocate g os s nbytes clean of
             Inl e \<Rightarrow> None
           | Inr (a, s1) \<Rightarrow> if a \<noteq> 0 then Some (a, nbytes) else None)
      | Release a nbytes \<Rightarrow> None
      | Reallocate a old_nbytes new_nbytes clean \<Rightarrow>
          (case pet_reallocate g os s a old_nbytes new_nbytes clean of
             Inl e \<Rightarrow> None
           | Inr (ok, a1, changed, s1) \<Rightarrow>
               if ok \<and> changed then Some (a1, new_nbytes) else None))"

text \<open>
  A state for the evaluation, with pages of 4096 bytes: \<open>cls_s1\<close> is the state after
  an allocation of 2400 bytes that maps the page at 65536.
\<close>

definition cls_s1 :: pet_state where
  "cls_s1 = (case run_requests g4k init_state [(os_page 65536, Allocate 2400 False)] of
               Inr s \<Rightarrow> s
             | Inl e \<Rightarrow> init_state)"

section \<open>Properties of the bitmap primitives\<close>

lemma ctz_scan_le: "ctz_scan k w \<le> k"
  by (induction k arbitrary: w) auto

lemma ctz_scan_zero: "i < ctz_scan k w \<Longrightarrow> \<not> bit w i"
proof (induction k arbitrary: w i)
  case 0 then show ?case by simp
next
  case (Suc k)
  show ?case
  proof (cases i)
    case 0 with Suc.prems show ?thesis by (auto split: if_splits)
  next
    case (Suc i')
    with Suc.prems have "i' < ctz_scan k (drop_bit 1 w)" by (auto split: if_splits)
    then have "\<not> bit (drop_bit 1 w) i'" by (rule Suc.IH)
    then show ?thesis using Suc by (simp add: bit_drop_bit_eq)
  qed
qed

lemma ctz_scan_one: "ctz_scan k w < k \<Longrightarrow> bit w (ctz_scan k w)"
proof (induction k arbitrary: w)
  case 0 then show ?case by simp
next
  case (Suc k)
  show ?case
  proof (cases "bit w 0")
    case True then show ?thesis by simp
  next
    case False
    with Suc.prems have "ctz_scan k (drop_bit 1 w) < k" by simp
    then have "bit (drop_bit 1 w) (ctz_scan k (drop_bit 1 w))" by (rule Suc.IH)
    then show ?thesis using False by (simp add: bit_drop_bit_eq)
  qed
qed

lemma nonzero_bit: "w \<noteq> 0 \<Longrightarrow> \<exists>n. bit w n" for w :: int
  by (auto simp: bit_eq_iff)

lemma ctz_scan_lt:
  assumes "w \<noteq> 0" and "\<And>n. bit w n \<Longrightarrow> n < 64"
  shows "ctz_scan 64 w < 64"
proof (rule ccontr)
  assume "\<not> ctz_scan 64 w < 64"
  with ctz_scan_le [of 64 w] have e: "ctz_scan 64 w = 64" by simp
  from assms(1) obtain n where n: "bit w n" by (auto dest: nonzero_bit)
  with assms(2) have "n < ctz_scan 64 w" using e by simp
  then have "\<not> bit w n" by (rule ctz_scan_zero)
  with n show False by simp
qed

lemma ctz_nonneg: "0 \<le> count_trailing_zeros w"
  by (simp add: count_trailing_zeros_def)

lemma ctz_lt: "w \<noteq> 0 \<Longrightarrow> (\<And>n. bit w n \<Longrightarrow> n < 64) \<Longrightarrow> count_trailing_zeros w < 64"
  using ctz_scan_lt [of w] by (simp add: count_trailing_zeros_def)

lemma ctz_bit: "w \<noteq> 0 \<Longrightarrow> (\<And>n. bit w n \<Longrightarrow> n < 64) \<Longrightarrow> bit w (nat (count_trailing_zeros w))"
  using ctz_scan_lt [of w] ctz_scan_one [of 64 w] by (simp add: count_trailing_zeros_def)

lemma ctz_zero: "0 \<le> k \<Longrightarrow> k < count_trailing_zeros w \<Longrightarrow> \<not> bit w (nat k)"
  using ctz_scan_zero [of "nat k" 64 w] by (simp add: count_trailing_zeros_def)

lemma rdw_bit: "bit (rdw bm i) n \<Longrightarrow> n < 64"
  by (simp add: rdw_def bit_take_bit_iff)

lemma bm_bit_word: "0 \<le> k \<Longrightarrow> k < 64 \<Longrightarrow> bm_bit bm (int i * 64 + k) = bit (rdw bm i) (nat k)"
  by (simp add: bm_bit_def WORD_WIDTH_def)

lemma czw_spec:
  assumes "64 dvd upp" and "offset = int i * 64" and "offset \<le> upp" and "0 \<le> count"
  shows "\<exists>d\<ge>0. count_zero_words upp bm i offset count limit = count + d
            \<and> (\<forall>j. offset \<le> j \<and> j < offset + d \<longrightarrow> \<not> bm_bit bm j)
            \<and> offset + d \<le> upp
            \<and> (count + d < limit \<longrightarrow> offset + d = upp \<or> bm_bit bm (offset + d))"
  using assms
proof (induction upp bm i offset count limit rule: count_zero_words.induct)
  case (1 upp bm i offset count limit)
  show ?case
  proof (cases "offset < upp \<and> count < limit")
    case False
    then have "count_zero_words upp bm i offset count limit = count"
      by (subst count_zero_words.simps) auto
    with False "1.prems" show ?thesis by (intro exI [of _ 0]) auto
  next
    case True
    from True "1.prems" have room: "offset + 64 \<le> upp"
      by (auto elim!: dvdE)
    show ?thesis
    proof (cases "rdw bm i = 0")
      case False
      let ?c = "count_trailing_zeros (rdw bm i)"
      have r: "count_zero_words upp bm i offset count limit = count + ?c"
        using True False by (subst count_zero_words.simps) (auto simp: Let_def)
      have lt: "?c < 64" using False rdw_bit by (rule ctz_lt)
      have ge: "0 \<le> ?c" by (rule ctz_nonneg)
      have z: "\<not> bm_bit bm j" if "offset \<le> j" "j < offset + ?c" for j
      proof -
        define k where "k = j - offset"
        have k: "j = int i * 64 + k" "0 \<le> k" "k < ?c"
          using that "1.prems"(2) by (simp_all add: k_def)
        with lt have "k < 64" by simp
        then show ?thesis using k ctz_zero [of k "rdw bm i"] by (simp add: bm_bit_word)
      qed
      have o: "bm_bit bm (offset + ?c)"
        using lt ge ctz_bit [OF False rdw_bit] "1.prems"(2) by (simp add: bm_bit_word)
      show ?thesis using r z o lt ge room by (intro exI [of _ ?c]) auto
    next
      case w0: True
      have r: "count_zero_words upp bm i offset count limit =
               count_zero_words upp bm (i + 1) (offset + WORD_WIDTH) (count + WORD_WIDTH) limit"
        using True w0 by (subst count_zero_words.simps) (auto simp: Let_def)
      have "\<exists>d\<ge>0. count_zero_words upp bm (i + 1) (offset + WORD_WIDTH) (count + WORD_WIDTH) limit
                  = count + WORD_WIDTH + d
            \<and> (\<forall>j. offset + WORD_WIDTH \<le> j \<and> j < offset + WORD_WIDTH + d \<longrightarrow> \<not> bm_bit bm j)
            \<and> offset + WORD_WIDTH + d \<le> upp
            \<and> (count + WORD_WIDTH + d < limit \<longrightarrow>
                 offset + WORD_WIDTH + d = upp \<or> bm_bit bm (offset + WORD_WIDTH + d))"
        using True w0 "1.prems" room
        by (intro "1.IH") (auto simp: WORD_WIDTH_def)
      then obtain d where d: "0 \<le> d"
        "count_zero_words upp bm (i + 1) (offset + 64) (count + 64) limit = count + 64 + d"
        "\<And>j. offset + 64 \<le> j \<Longrightarrow> j < offset + 64 + d \<Longrightarrow> \<not> bm_bit bm j"
        "offset + 64 + d \<le> upp"
        "count + 64 + d < limit \<Longrightarrow> offset + 64 + d = upp \<or> bm_bit bm (offset + 64 + d)"
        by (auto simp: WORD_WIDTH_def)
      have z: "\<not> bm_bit bm j" if "offset \<le> j" "j < offset + 64" for j
      proof -
        define k where "k = j - offset"
        have k: "j = int i * 64 + k" "0 \<le> k" "k < 64"
          using that "1.prems"(2) by (simp_all add: k_def)
        then show ?thesis using w0 by (simp add: bm_bit_word)
      qed
      have zz: "\<not> bm_bit bm j" if "offset \<le> j" "j < offset + (64 + d)" for j
        using that z [of j] d(3) [of j] by (cases "j < offset + 64") auto
      show ?thesis
        using r d(1,2,4,5) zz by (intro exI [of _ "64 + d"]) (auto simp: WORD_WIDTH_def add.assoc)
    qed
  qed
qed

lemma czb_spec:
  assumes dv: "64 dvd upp" and ge: "0 \<le> offset" and le: "offset \<le> upp"
  shows "0 \<le> count_zero_bits upp bm offset limit
       \<and> (\<forall>j. offset \<le> j \<and> j < offset + count_zero_bits upp bm offset limit \<longrightarrow> \<not> bm_bit bm j)
       \<and> offset + count_zero_bits upp bm offset limit \<le> upp
       \<and> (count_zero_bits upp bm offset limit < limit \<longrightarrow>
            offset + count_zero_bits upp bm offset limit = upp
            \<or> bm_bit bm (offset + count_zero_bits upp bm offset limit))"
proof -
  define i where "i = nat (offset div 64)"
  define bi where "bi = offset mod 64"
  have "0 \<le> offset div 64" using ge by (simp add: pos_imp_zdiv_nonneg_iff)
  then have off: "offset = int i * 64 + bi" and bi: "0 \<le> bi" "bi < 64"
    by (simp_all add: i_def bi_def)
  show ?thesis
  proof (cases "bi = 0")
    case True
    then have c: "count_zero_bits upp bm offset limit = count_zero_words upp bm i offset 0 limit"
      by (simp add: count_zero_bits_def Let_def WORD_WIDTH_def i_def bi_def)
    from czw_spec [OF dv _ le, of i 0 bm limit] off True
    show ?thesis unfolding c by auto
  next
    case False
    have lt: "offset < upp"
    proof (rule ccontr)
      assume "\<not> offset < upp"
      with le have "offset = upp" by simp
      with dv have "offset mod 64 = 0" by auto
      with False show False by (simp add: bi_def)
    qed
    from dv obtain q where q: "upp = 64 * q" by (auto elim: dvdE)
    have room: "(int i + 1) * 64 \<le> upp"
    proof -
      from lt off q bi have "int i * 64 < 64 * q" by simp
      then have "int i < q" by simp
      then have "int i + 1 \<le> q" by simp
      then show ?thesis using q by simp
    qed
    let ?w = "drop_bit (nat bi) (rdw bm i)"
    have wbits: "n < 64" if "bit ?w n" for n
      using that rdw_bit [of bm i "nat bi + n"] by (simp add: bit_drop_bit_eq)
    show ?thesis
    proof (cases "?w = 0")
      case w0: False
      let ?c = "count_trailing_zeros ?w"
      have c: "count_zero_bits upp bm offset limit = ?c"
        using False w0 by (simp add: count_zero_bits_def Let_def WORD_WIDTH_def i_def bi_def)
      have cge: "0 \<le> ?c" by (rule ctz_nonneg)
      have "bit ?w (nat ?c)" using w0 wbits by (rule ctz_bit)
      then have b: "bit (rdw bm i) (nat bi + nat ?c)" by (simp add: bit_drop_bit_eq)
      then have "nat bi + nat ?c < 64" by (rule rdw_bit)
      then have in_word: "bi + ?c < 64" using bi cge by simp
      have z: "\<not> bm_bit bm j" if "offset \<le> j" "j < offset + ?c" for j
      proof -
        define k where "k = j - offset"
        have k: "j = int i * 64 + (bi + k)" "0 \<le> k" "k < ?c"
          using that off by (simp_all add: k_def)
        then have "\<not> bit ?w (nat k)" using ctz_zero by blast
        then have "\<not> bit (rdw bm i) (nat bi + nat k)" by (simp add: bit_drop_bit_eq)
        then have "\<not> bit (rdw bm i) (nat (bi + k))" using bi k by (simp add: nat_add_distrib)
        moreover have "0 \<le> bi + k" "bi + k < 64" using k in_word bi by simp_all
        ultimately show ?thesis using k(1) bm_bit_word [of "bi + k" bm i] by simp
      qed
      have "bit (rdw bm i) (nat (bi + ?c))" using b bi cge by (simp add: nat_add_distrib)
      then have o: "bm_bit bm (offset + ?c)"
        using in_word off bi cge bm_bit_word [of "bi + ?c" bm i] by (simp add: add.assoc)
      have "offset + ?c \<le> upp" using in_word off room by simp
      then show ?thesis unfolding c using z o cge by blast
    next
      case w0: True
      let ?cnt = "64 - bi"
      have c: "count_zero_bits upp bm offset limit =
               count_zero_words upp bm (i + 1) (offset + ?cnt) ?cnt limit"
        using False w0 by (simp add: count_zero_bits_def Let_def WORD_WIDTH_def i_def bi_def)
      have al: "offset + ?cnt = int (i + 1) * 64" using off bi by simp
      have cnt0: "0 \<le> ?cnt" using bi by simp
      from czw_spec [OF dv al _ cnt0, of bm limit] room al
      obtain d where d: "0 \<le> d"
        "count_zero_words upp bm (i + 1) (offset + ?cnt) ?cnt limit = ?cnt + d"
        "\<And>j. offset + ?cnt \<le> j \<Longrightarrow> j < offset + ?cnt + d \<Longrightarrow> \<not> bm_bit bm j"
        "offset + ?cnt + d \<le> upp"
        "?cnt + d < limit \<Longrightarrow> offset + ?cnt + d = upp \<or> bm_bit bm (offset + ?cnt + d)"
        by auto
      have z: "\<not> bm_bit bm j" if "offset \<le> j" "j < offset + ?cnt" for j
      proof -
        define k where "k = j - offset"
        have k: "j = int i * 64 + (bi + k)" "0 \<le> k" "k < ?cnt"
          using that off by (simp_all add: k_def)
        have "\<not> bit ?w (nat k)" using w0 by simp
        then have "\<not> bit (rdw bm i) (nat bi + nat k)" by (simp add: bit_drop_bit_eq)
        then have "\<not> bit (rdw bm i) (nat (bi + k))" using bi k by (simp add: nat_add_distrib)
        moreover have "0 \<le> bi + k" "bi + k < 64" using k bi by simp_all
        ultimately show ?thesis using k(1) bm_bit_word [of "bi + k" bm i] by simp
      qed
      have zz: "\<not> bm_bit bm j" if "offset \<le> j" "j < offset + (?cnt + d)" for j
        using that z [of j] d(3) [of j] by (cases "j < offset + ?cnt") auto
      show ?thesis unfolding c d(2) using zz d(1,4,5) cnt0 by (auto simp: add.assoc)
    qed
  qed
qed

lemma rdw_inverted: "rdw (\<lambda>k. word_not (rdw bm k)) i = word_not (rdw bm i)"
  by (simp add: rdw_def word_not_def)

lemma cnzw_as_czw:
  "count_nonzero_words upp bm i offset count limit
   = count_zero_words upp (\<lambda>k. word_not (rdw bm k)) i offset count limit"
proof (induction upp bm i offset count limit rule: count_nonzero_words.induct)
  case (1 upp bm i offset count limit)
  show ?case
    apply (subst count_nonzero_words.simps)
    apply (subst count_zero_words.simps)
    unfolding rdw_inverted
    using 1 by (auto simp: Let_def)
qed

lemma cnzb_as_czb:
  "count_nonzero_bits upp bm offset limit
   = count_zero_bits upp (\<lambda>k. word_not (rdw bm k)) offset limit"
  unfolding count_nonzero_bits_def count_zero_bits_def cnzw_as_czw rdw_inverted by (rule refl)

lemma bm_bit_not: "bm_bit (\<lambda>k. word_not (rdw bm k)) j = (\<not> bm_bit bm j)"
proof -
  have "nat (j mod 64) < 64" by simp
  then show ?thesis
    unfolding bm_bit_def rdw_inverted
    by (simp add: WORD_WIDTH_def word_not_def bit_take_bit_iff bit_not_int_iff del: nat_mod_distrib)
qed

lemma cnzb_spec:
  assumes dv: "64 dvd upp" and ge: "0 \<le> offset" and le: "offset \<le> upp"
  shows "0 \<le> count_nonzero_bits upp bm offset limit
       \<and> (\<forall>j. offset \<le> j \<and> j < offset + count_nonzero_bits upp bm offset limit \<longrightarrow> bm_bit bm j)
       \<and> offset + count_nonzero_bits upp bm offset limit \<le> upp
       \<and> (count_nonzero_bits upp bm offset limit < limit \<longrightarrow>
            offset + count_nonzero_bits upp bm offset limit = upp
            \<or> \<not> bm_bit bm (offset + count_nonzero_bits upp bm offset limit))"
  unfolding cnzb_as_czb
  using czb_spec [OF dv ge le, of "\<lambda>k. word_not (rdw bm k)" limit]
  unfolding bm_bit_not by blast

lemma usub_plain: "0 \<le> b \<Longrightarrow> b \<le> a \<Longrightarrow> a < 2 ^ 32 \<Longrightarrow> usub a b = a - b"
  by (simp add: usub_def)

lemma flf_step:
  fixes upp offset n :: int and bm :: bitmap
  assumes dv: "64 dvd upp" and small: "upp < 2 ^ 32" and off: "0 \<le> offset"
    and n: "0 < n" and sum: "offset + n = upp"
  defines "z \<equiv> count_zero_bits upp bm offset n"
  defines "nz \<equiv> count_nonzero_bits upp bm (offset + z) (usub n z)"
  shows "0 \<le> z \<and> 0 \<le> nz \<and> 1 \<le> z + nz \<and> z + nz \<le> n
         \<and> usub n z = n - z \<and> usub (usub n z) nz = n - z - nz"
proof -
  have le: "offset \<le> upp" using n sum by simp
  note zs = czb_spec [OF dv off le, of bm n, folded z_def]
  have z0: "0 \<le> z" and zn: "z \<le> n" using zs sum by auto
  have nlt: "n < 2 ^ 32" using small sum off by simp
  have u1: "usub n z = n - z" using z0 zn nlt by (rule usub_plain)
  have off1: "0 \<le> offset + z" "offset + z \<le> upp" using off z0 zs by auto
  note nzs = cnzb_spec [OF dv off1, of bm "usub n z", folded nz_def]
  have nz0: "0 \<le> nz" and nzn: "nz \<le> n - z" using nzs sum by auto
  have u2: "usub (usub n z) nz = n - z - nz"
    unfolding u1 using nz0 nzn nlt z0 by (intro usub_plain) auto
  have pos: "1 \<le> z + nz"
  proof (rule ccontr)
    assume "\<not> 1 \<le> z + nz"
    with z0 nz0 have e: "z = 0" "nz = 0" by auto
    from zs e n sum have "bm_bit bm offset" by auto
    moreover from nzs e u1 n sum have "\<not> bm_bit bm offset" by auto
    ultimately show False by simp
  qed
  show ?thesis using z0 nz0 pos nzn u1 u2 by auto
qed

lemma flf_terminates:
  assumes dv: "64 dvd upp" and small: "upp < 2 ^ 32"
  shows "0 \<le> offset \<Longrightarrow> 0 \<le> n \<Longrightarrow> offset + n = upp
         \<Longrightarrow> \<exists>r. find_longest_from upp bm offset n lfb = Some r"
proof (induction "nat n" arbitrary: offset n lfb rule: less_induct)
  case less
  show ?case
  proof (cases "n = 0")
    case True
    then show ?thesis by (subst find_longest_from.simps) simp
  next
    case False
    with less.prems have n: "0 < n" by simp
    define z where "z = count_zero_bits upp bm offset n"
    define nz where "nz = count_nonzero_bits upp bm (offset + z) (usub n z)"
    note st = flf_step [OF dv small less.prems(1) n less.prems(3), of bm, folded z_def nz_def]
    have e1: "\<exists>r. find_longest_from upp bm (offset + z + nz) (n - z - nz)
                 (if z > lfb then z else lfb) = Some r"
      using st less.prems by (intro less.hyps) auto
    have e2: "find_longest_from upp bm offset n lfb =
        find_longest_from upp bm (offset + z + nz) (usub (usub n z) nz)
          (if z > lfb then z else lfb)"
      apply (subst find_longest_from.simps)
      unfolding z_def nz_def Let_def using False by simp
    from st have u: "usub (usub n z) nz = n - z - nz" by blast
    show ?thesis unfolding e2 u by (rule e1)
  qed
qed

lemma ffb_step:
  fixes upp offset block_size :: int and bm :: bitmap
  assumes dv: "64 dvd upp" and off: "0 \<le> offset" and lt: "offset < upp"
  defines "z \<equiv> count_zero_bits upp bm offset block_size"
  defines "nz \<equiv> count_nonzero_bits upp bm (offset + z) UINT_MAX"
  assumes short: "z < block_size"
  shows "offset < offset + z + nz \<and> offset + z + nz \<le> upp"
proof -
  have le: "offset \<le> upp" using lt by simp
  note zs = czb_spec [OF dv off le, of bm block_size, folded z_def]
  have z0: "0 \<le> z" using zs by auto
  have off1: "0 \<le> offset + z" "offset + z \<le> upp" using off z0 zs by auto
  note nzs = cnzb_spec [OF dv off1, of bm UINT_MAX, folded nz_def]
  have nz0: "0 \<le> nz" using nzs by auto
  have "0 < z + nz"
  proof (rule ccontr)
    assume "\<not> 0 < z + nz"
    with z0 nz0 have e: "z = 0" "nz = 0" by auto
    from zs e short lt have "bm_bit bm offset" by auto
    moreover from nzs e lt have "\<not> bm_bit bm offset" by (auto simp: UINT_MAX_def)
    ultimately show False by simp
  qed
  then show ?thesis using nzs by auto
qed

lemma ffb_terminates:
  assumes dv: "64 dvd upp"
  shows "0 \<le> offset \<Longrightarrow> \<exists>r. find_free_block_from upp bm block_size offset = Some r"
proof (induction "nat (upp - offset)" arbitrary: offset rule: less_induct)
  case less
  show ?case
  proof (cases "offset < upp")
    case False
    then show ?thesis by (subst find_free_block_from.simps) simp
  next
    case lt: True
    define z where "z = count_zero_bits upp bm offset block_size"
    define nz where "nz = count_nonzero_bits upp bm (offset + z) UINT_MAX"
    show ?thesis
    proof (cases "block_size \<le> z")
      case True
      then show ?thesis
        apply (subst find_free_block_from.simps)
        unfolding z_def Let_def using lt by simp
    next
      case False
      then have short: "z < block_size" by simp
      note st = ffb_step [OF dv less.prems lt, of bm block_size, folded z_def nz_def, OF short]
      have "\<exists>r. find_free_block_from upp bm block_size (offset + z + nz) = Some r"
        using st less.prems lt by (intro less.hyps) auto
      moreover have "find_free_block_from upp bm block_size offset =
                     find_free_block_from upp bm block_size (offset + z + nz)"
        apply (subst find_free_block_from.simps)
        unfolding z_def nz_def Let_def using lt False [unfolded z_def] by simp
      ultimately show ?thesis by simp
    qed
  qed
qed

section \<open>Properties of memory cleaning and of the alignment helpers\<close>

lemma zero_bytes_eq:
  "zero_bytes m p n = (\<lambda>x. if p \<le> x \<and> x < p + int n then 0 else m x)"
proof (induction n arbitrary: m p)
  case 0 then show ?case by auto
next
  case (Suc n)
  show ?case by (simp add: Suc.IH) (rule ext, auto)
qed

lemma zero_words_eq:
  "0 \<le> len \<Longrightarrow> zero_words m p len =
     ((\<lambda>x. if p \<le> x \<and> x < p + 8 * (len div 8) then 0 else m x), p + 8 * (len div 8), len mod 8)"
proof (induction m p len rule: zero_words.induct)
  case (1 m wordptr len)
  show ?case
  proof (cases "8 \<le> len")
    case False
    with "1.prems" have e: "len div 8 = 0" "len mod 8 = len" by auto
    have "zero_words m wordptr len = (m, wordptr, len)"
      using False by (subst zero_words.simps) simp
    then show ?thesis unfolding e by (simp add: fun_eq_iff)
  next
    case True
    have d: "len div 8 = (len - 8) div 8 + 1" "len mod 8 = (len - 8) mod 8"
      by presburger+
    from True "1.prems" have "0 \<le> len - 8" by simp
    then have q: "0 \<le> (len - 8) div 8" by (simp add: pos_imp_zdiv_nonneg_iff)
    from True "1.prems" have "0 \<le> len - 8" by simp
    note ih = "1.IH" [OF True this]
    have "zero_words m wordptr len = zero_words (zero_bytes m wordptr 8) (wordptr + 8) (len - 8)"
      using True by (subst zero_words.simps) simp
    also note ih
    also have "((\<lambda>x. if wordptr + 8 \<le> x \<and> x < wordptr + 8 + 8 * ((len - 8) div 8) then 0
                     else zero_bytes m wordptr 8 x),
                wordptr + 8 + 8 * ((len - 8) div 8), (len - 8) mod 8)
             = ((\<lambda>x. if wordptr \<le> x \<and> x < wordptr + 8 * (len div 8) then 0 else m x),
                wordptr + 8 * (len div 8), len mod 8)"
      unfolding d zero_bytes_eq using q by (auto simp: fun_eq_iff)
    finally show ?thesis .
  qed
qed

lemma tail_eq:
  assumes "0 \<le> len"
  shows "(case zero_words m p len of
            (m2, wordptr, len2) \<Rightarrow> if len2 \<noteq> 0 then zero_bytes m2 wordptr (nat len2) else m2)
         = (\<lambda>x. if p \<le> x \<and> x < p + len then 0 else m x)"
proof -
  have s: "8 * (len div 8) + len mod 8 = len" by simp
  have r: "0 \<le> len mod 8" by simp
  have q: "0 \<le> len div 8" using assms by (simp add: pos_imp_zdiv_nonneg_iff)
  show ?thesis
    unfolding zero_words_eq [OF assms] prod.case zero_bytes_eq
    apply (rule ext)
    using s r q by auto
qed

lemma cleanse_eq:
  assumes "0 \<le> start" and "start \<le> e" and "e < 2 ^ 32"
  shows "cleanse m a start e = (\<lambda>x. if a + start \<le> x \<and> x < a + e then 0 else m x)"
proof -
  have len: "usub e start = e - start" using assms by (simp add: usub_def)
  show ?thesis
  proof (cases "start mod 8 = 0")
    case True
    have "cleanse m a start e
          = (case zero_words m (a + start) (e - start) of
               (m2, wordptr, len2) \<Rightarrow> if len2 \<noteq> 0 then zero_bytes m2 wordptr (nat len2) else m2)"
      unfolding cleanse_def len Let_def using True by simp
    also have "\<dots> = (\<lambda>x. if a + start \<le> x \<and> x < a + start + (e - start) then 0 else m x)"
      using assms by (intro tail_eq) simp
    finally show ?thesis by (simp add: fun_eq_iff)
  next
    case False
    define nb where "nb = (if 8 - start mod 8 > e - start then e - start else 8 - start mod 8)"
    have nb: "0 \<le> nb" "nb \<le> e - start"
      using assms by (auto simp: nb_def) 
    have "cleanse m a start e
          = (case zero_words (zero_bytes m (a + start) (nat nb)) (a + start + nb) (e - start - nb) of
               (m2, wordptr, len2) \<Rightarrow> if len2 \<noteq> 0 then zero_bytes m2 wordptr (nat len2) else m2)"
      unfolding cleanse_def len Let_def nb_def using False by simp
    also have "\<dots> = (\<lambda>x. if a + start + nb \<le> x \<and> x < a + start + nb + (e - start - nb) then 0
                          else zero_bytes m (a + start) (nat nb) x)"
      using nb by (intro tail_eq) simp
    finally show ?thesis using nb by (auto simp: fun_eq_iff zero_bytes_eq)
  qed
qed

lemma and_not_15_div: "(x AND NOT 15) div 16 = x div 16" for x :: int
proof -
  have "drop_bit 4 (x AND NOT (mask 4)) = drop_bit 4 x"
    by (rule bit_eqI) (auto simp: bit_simps)
  then show ?thesis by (simp add: drop_bit_eq_div mask_eq_exp_minus_1)
qed

lemma and_m16_div: "(x AND - 16) div 16 = x div 16" for x :: int
  using and_not_15_div [of x] by simp

lemma bytes_to_units_eq:
  assumes "0 \<le> n" and "n + 15 < 2 ^ 32"
  shows "bytes_to_units n = (n + 15) div 16"
proof -
  have "uadd n 15 = n + 15" using assms by (simp add: uadd_def)
  then show ?thesis
    by (simp add: bytes_to_units_def align_unsigned_def UNIT_SIZE_def and_m16_div)
qed

lemma or_zero_iff: "(a OR b = 0) = (a = 0 \<and> b = 0)" for a b :: int
  by (rule or_eq_0_iff)

lemma params_ok_mdu: "params_ok g \<Longrightarrow> max_data_units g < 2 ^ 28"
  by (auto simp: params_ok_def UNIT_SIZE_def)

lemma params_ok_4096: "params_ok (init_params 4096)"
  by (simp add: params_ok_def init_params_def Let_def usub_def UNIT_SIZE_def WORD_WIDTH_def)

lemma params_ok_upp:
  assumes "params_ok g"
  shows "64 dvd units_per_page g" and "units_per_page g < 2 ^ 32"
    and "0 \<le> bm_page_header_size_in_units g" and "0 \<le> max_data_units g"
    and "bm_page_header_size_in_units g + max_data_units g = units_per_page g"
  using assms by (auto simp: params_ok_def WORD_WIDTH_def UNIT_SIZE_def)

section \<open>Properties of the debug allocator\<close>

lemma count_damaged_upper_nonneg: "0 \<le> count_damaged_upper m p e"
proof (induction m p e rule: count_damaged_upper.induct)
  case (1 m p e)
  show ?case
    using 1 by (subst count_damaged_upper.simps) auto
qed

lemma count_damaged_upper_pos:
  "p \<le> x \<Longrightarrow> x < e \<Longrightarrow> m x \<noteq> 255 \<Longrightarrow> 0 < count_damaged_upper m p e"
proof (induction m p e rule: count_damaged_upper.induct)
  case (1 m p e)
  have lt: "p < e" using 1 by simp
  show ?case
  proof (cases "x = p")
    case True
    have "0 \<le> count_damaged_upper m (p + 1) e" by (rule count_damaged_upper_nonneg)
    then show ?thesis
      using lt True 1(4) by (subst count_damaged_upper.simps) simp
  next
    case False
    then have "0 < count_damaged_upper m (p + 1) e"
      using 1 lt by simp
    then show ?thesis
      using lt by (subst count_damaged_upper.simps) simp
  qed
qed

lemma store_le_outside:
  "x < p \<or> p + int n \<le> x \<Longrightarrow> store_le m p n v x = m x"
  by (induction n arbitrary: m p v) auto

lemma check_region_upper:
  assumes "calc_memsize nbytes = nbytes + 80"
    and "nbytes \<le> i" and "i < nbytes + 32" and "m (a + i) \<noteq> 255"
  shows "check_region m a nbytes"
proof -
  have "0 < count_damaged_upper m (a + nbytes) (a + nbytes + 32)"
    using assms by (intro count_damaged_upper_pos [where x = "a + i"]) auto
  moreover have "block_from_region (region_from_block a) + nbytes = a + nbytes"
    by (simp add: region_from_block_def block_from_region_def)
  moreover have "region_from_block a + calc_memsize nbytes = a + nbytes + 32"
    by (simp add: assms(1) region_from_block_def MemBlockInfo_size_def BUBBLEWRAP_def)
  ultimately show ?thesis
    unfolding check_region_def Let_def by simp
qed

lemma count_damaged_upper_zero:
  "(\<And>x. p \<le> x \<Longrightarrow> x < e \<Longrightarrow> m x = 255) \<Longrightarrow> count_damaged_upper m p e = 0"
proof (induction m p e rule: count_damaged_upper.induct)
  case (1 m p e)
  show ?case
  proof (cases "p < e")
    case True
    have "count_damaged_upper m (p + 1) e = 0"
      using True 1(2) by (intro 1(1)) auto
    moreover have "m p = 255" using True by (intro 1(2)) auto
    ultimately show ?thesis
      using True by (subst count_damaged_upper.simps) simp
  next
    case False
    then show ?thesis by (subst count_damaged_upper.simps) simp
  qed
qed

lemma count_damaged_lower_zero:
  "(\<And>j. MemBlockInfo_size \<le> j \<Longrightarrow> j \<le> i \<Longrightarrow> m (region_start + j) = 255)
   \<Longrightarrow> count_damaged_lower m region_start i = 0"
proof (induction m region_start i rule: count_damaged_lower.induct)
  case (1 m region_start i)
  show ?case
  proof (cases "MemBlockInfo_size \<le> i")
    case True
    have "count_damaged_lower m region_start (i - 1) = 0"
      using True 1(2) by (intro 1(1)) auto
    moreover have "m (region_start + i) = 255" using True by (intro 1(2)) auto
    ultimately show ?thesis
      using True by (subst count_damaged_lower.simps) simp
  next
    case False
    then show ?thesis by (subst count_damaged_lower.simps) simp
  qed
qed

lemma check_region_intact:
  assumes ms: "calc_memsize nbytes = nbytes + 80"
    and lower: "\<And>x. a - 32 \<le> x \<Longrightarrow> x < a \<Longrightarrow> m x = 255"
    and upper: "\<And>x. a + nbytes \<le> x \<Longrightarrow> x < a + nbytes + 32 \<Longrightarrow> m x = 255"
  shows "\<not> check_region m a nbytes"
proof -
  have u: "count_damaged_upper m (a + nbytes) (a + nbytes + 32) = 0"
    using upper by (intro count_damaged_upper_zero) auto
  have l: "count_damaged_lower m (region_from_block a) (MemBlockInfo_size + BUBBLEWRAP - 1) = 0"
  proof (rule count_damaged_lower_zero)
    fix j assume "MemBlockInfo_size \<le> j" "j \<le> MemBlockInfo_size + BUBBLEWRAP - 1"
    then show "m (region_from_block a + j) = 255"
      by (intro lower) (auto simp: region_from_block_def MemBlockInfo_size_def BUBBLEWRAP_def)
  qed
  have e1: "block_from_region (region_from_block a) + nbytes = a + nbytes"
    by (simp add: region_from_block_def block_from_region_def)
  have e2: "region_from_block a + calc_memsize nbytes = a + nbytes + 32"
    by (simp add: ms region_from_block_def MemBlockInfo_size_def BUBBLEWRAP_def)
  show ?thesis
    unfolding check_region_def Let_def e1 e2 u l by simp
qed

lemma dbg_allocate_result:
  assumes "dbg_allocate (Some r) st nbytes clean = Inr (a', st1)"
    and "0 \<le> nbytes" and "nbytes < 2 ^ 32"
  shows "a' = r + 48 \<and> calc_memsize nbytes = nbytes + 80
         \<and> (\<forall>x. x < r \<or> r + calc_memsize nbytes \<le> x \<longrightarrow> dmem st1 x = dmem st x)
         \<and> (\<forall>x. (r + 16 \<le> x \<and> x < r + 48) \<or> (r + 48 + nbytes \<le> x \<and> x < r + 80 + nbytes)
                \<longrightarrow> dmem st1 x = 255)"
proof -
  let ?ms = "calc_memsize nbytes"
  have ne: "\<not> r + ?ms \<le> r + 48 + nbytes"
    using assms(1)
    by (auto simp: dbg_allocate_def Let_def MemBlockInfo_size_def BUBBLEWRAP_def
          split: if_splits)
  have ms: "?ms = nbytes + 80"
  proof (cases "nbytes + 80 < 2 ^ 32")
    case True
    then show ?thesis
      using assms(2) by (simp add: calc_memsize_def MemBlockInfo_size_def BUBBLEWRAP_def)
  next
    case False
    then have "?ms = nbytes + 80 - 2 ^ 32"
      using assms(3) unfolding calc_memsize_def MemBlockInfo_size_def BUBBLEWRAP_def
      by (simp add: mod_pos_geq)
    with ne show ?thesis by simp
  qed
  have a': "a' = r + 48"
    using assms(1) ne
    by (auto simp: dbg_allocate_def Let_def MemBlockInfo_size_def BUBBLEWRAP_def
          split: if_splits)
  have "dmem st1 x = dmem st x" if "x < r \<or> r + ?ms \<le> x" for x
    using assms(1) ne that assms(2) unfolding ms
    by (auto simp: dbg_allocate_def Let_def MemBlockInfo_size_def BUBBLEWRAP_def ms
          memset_def store_le_outside split: if_splits)
  moreover have "dmem st1 x = 255"
    if "(r + 16 \<le> x \<and> x < r + 48) \<or> (r + 48 + nbytes \<le> x \<and> x < r + 80 + nbytes)" for x
    using assms(1) ne that assms(2) unfolding ms
    by (auto simp: dbg_allocate_def Let_def MemBlockInfo_size_def BUBBLEWRAP_def ms
          memset_def store_le_outside split: if_splits)
  ultimately show ?thesis using ms a' by blast
qed

lemma dbg_st0_run:
  "dbg_reallocate (Some 5000) dbg_st0 1000 20 8 False = Inr (True, 5048, True, dbg_st1)"
proof -
  have "map_sum id (\<lambda>(ok, a, ch, st). (ok, a, ch))
          (dbg_reallocate (Some 5000) dbg_st0 1000 20 8 False) = Inr (True, 5048, True)"
    by code_simp
  then show ?thesis
    by (cases "dbg_reallocate (Some 5000) dbg_st0 1000 20 8 False")
       (auto simp: dbg_st1_def)
qed

lemma dbg_st2_run:
  "dbg_reallocate (Some 5000) dbg_st2 1000 100 8 False = Inr (True, 5048, True, dbg_st3)"
proof -
  have "map_sum id (\<lambda>(ok, a, ch, st). (ok, a, ch))
          (dbg_reallocate (Some 5000) dbg_st2 1000 100 8 False) = Inr (True, 5048, True)"
    by code_simp
  then show ?thesis
    by (cases "dbg_reallocate (Some 5000) dbg_st2 1000 100 8 False")
       (auto simp: dbg_st3_def)
qed

section \<open>Properties of the page alignment\<close>

lemma and_not_mask_int: "x AND NOT (mask k) = x div 2 ^ k * 2 ^ k" for x :: int
proof -
  have "x AND NOT (mask k) = push_bit k (drop_bit k x)"
    by (rule bit_eqI) (auto simp: bit_simps)
  then show ?thesis by (simp add: push_bit_eq_mult drop_bit_eq_div)
qed

lemma bm_page_from_addr_pow2:
  "sys_page_size g = 2 ^ k \<Longrightarrow> bm_page_from_addr g a = a div 2 ^ k * 2 ^ k"
  using and_not_mask_int [of a k] by (simp add: bm_page_from_addr_def mask_eq_exp_minus_1)

lemma page_aligned_0 [simp]: "page_aligned g 0"
  by (simp add: page_aligned_def bm_page_from_addr_def)

lemma page_aligned_page [simp]: "page_aligned g (bm_page_from_addr g a)"
  by (simp add: page_aligned_def bm_page_from_addr_def and.assoc)

lemma page_aligned_dvd:
  "sys_page_size g = 2 ^ k \<Longrightarrow> page_aligned g a \<longleftrightarrow> 2 ^ k dvd a"
proof -
  have "(a div 2 ^ k * 2 ^ k = a) = (2 ^ k dvd a)"
    by (metis dvd_div_mult_self dvd_triv_right)
  then show "sys_page_size g = 2 ^ k \<Longrightarrow> page_aligned g a \<longleftrightarrow> 2 ^ k dvd a"
    by (simp add: page_aligned_def bm_page_from_addr_pow2)
qed

lemma page_of_inner:
  assumes pw: "sys_page_size g = 2 ^ k" and al: "page_aligned g p"
    and d: "0 \<le> d" "d < sys_page_size g"
  shows "bm_page_from_addr g (p + d) = p"
proof -
  from al pw obtain q where q: "p = 2 ^ k * q" by (auto simp: page_aligned_dvd)
  have "(p + d) div 2 ^ k = q"
    using d pw unfolding q by simp
  then show ?thesis using pw q by (simp add: bm_page_from_addr_pow2)
qed

lemma ffb_range:
  assumes dv: "64 dvd upp"
  shows "0 \<le> offset \<Longrightarrow> find_free_block_from upp bm block_size offset = Some r
         \<Longrightarrow> r = 0 \<or> (offset \<le> r \<and> r < upp)"
proof (induction "nat (upp - offset)" arbitrary: offset rule: less_induct)
  case less
  show ?case
  proof (cases "offset < upp")
    case False
    then show ?thesis using less.prems(2) by (subst (asm) find_free_block_from.simps) simp
  next
    case lt: True
    define z where "z = count_zero_bits upp bm offset block_size"
    define nz where "nz = count_nonzero_bits upp bm (offset + z) UINT_MAX"
    show ?thesis
    proof (cases "block_size \<le> z")
      case True
      have "find_free_block_from upp bm block_size offset = Some offset"
        apply (subst find_free_block_from.simps)
        unfolding z_def Let_def using lt True [unfolded z_def] by simp
      then show ?thesis using less.prems(2) lt by simp
    next
      case False
      then have short: "z < block_size" by simp
      note st = ffb_step [OF dv less.prems(1) lt, of bm block_size, folded z_def nz_def, OF short]
      have "find_free_block_from upp bm block_size offset =
            find_free_block_from upp bm block_size (offset + z + nz)"
        apply (subst find_free_block_from.simps)
        unfolding z_def nz_def Let_def using lt False [unfolded z_def] by simp
      then have "find_free_block_from upp bm block_size (offset + z + nz) = Some r"
        using less.prems(2) by simp
      then have "r = 0 \<or> (offset + z + nz \<le> r \<and> r < upp)"
        using st less.prems(1) lt by (intro less.hyps) auto
      then show ?thesis using st by auto
    qed
  qed
qed

lemma find_free_block_range:
  assumes "params_ok g" and "find_free_block g bm block_size = Some r"
  shows "r = 0 \<or> (bm_page_header_size_in_units g \<le> r \<and> r < units_per_page g)"
  using ffb_range [of "units_per_page g" "bm_page_header_size_in_units g" bm block_size r]
    assms params_ok_upp [OF assms(1)]
  by (simp add: find_free_block_def)

lemma bind_f_Inr:
  assumes "bind_f m f = Inr y"
  obtains x where "m = Inr x" and "f x = Inr y"
  using assms by (cases m) (auto simp: bind_f_def)

lemma links_aligned_slot: "links_aligned g s \<Longrightarrow> page_aligned g (slot s k)"
  by (auto simp: links_aligned_def slot_def list_all_iff split: option.splits
        dest!: map_of_SomeD)

lemma links_aligned_set_slot:
  "links_aligned g s \<Longrightarrow> page_aligned g v \<Longrightarrow> links_aligned g (set_slot s k v)"
  by (auto simp: links_aligned_def set_slot_def list_all_iff)

lemma links_aligned_get_hdr:
  "links_aligned g s \<Longrightarrow> get_hdr s p = Inr h
   \<Longrightarrow> page_aligned g (pg_next h) \<and> page_aligned g (pg_prev h)"
  by (auto simp: links_aligned_def get_hdr_def list_all_iff split: option.splits if_splits
        dest!: map_of_SomeD)

lemma links_aligned_put_hdr:
  "links_aligned g s \<Longrightarrow> page_aligned g (pg_next h) \<Longrightarrow> page_aligned g (pg_prev h)
   \<Longrightarrow> links_aligned g (put_hdr s p h)"
  by (auto simp: links_aligned_def put_hdr_def list_all_iff)

lemma links_aligned_set_list:
  "links_aligned g s \<Longrightarrow> set_list s p v = Inr s' \<Longrightarrow> links_aligned g s'"
  unfolding set_list_def
  by (erule bind_f_Inr) (auto dest: links_aligned_get_hdr intro!: links_aligned_put_hdr)

lemma links_aligned_set_bitmap:
  "links_aligned g s \<Longrightarrow> set_bitmap s p bm = Inr s' \<Longrightarrow> links_aligned g s'"
  unfolding set_bitmap_def
  by (erule bind_f_Inr) (auto dest: links_aligned_get_hdr intro!: links_aligned_put_hdr)

lemma links_aligned_set_next:
  "links_aligned g s \<Longrightarrow> page_aligned g v \<Longrightarrow> set_next s p v = Inr s' \<Longrightarrow> links_aligned g s'"
  unfolding set_next_def
  by (erule bind_f_Inr) (auto dest: links_aligned_get_hdr intro!: links_aligned_put_hdr)

lemma links_aligned_set_prev:
  "links_aligned g s \<Longrightarrow> page_aligned g v \<Longrightarrow> set_prev s p v = Inr s' \<Longrightarrow> links_aligned g s'"
  unfolding set_prev_def
  by (erule bind_f_Inr) (auto dest: links_aligned_get_hdr intro!: links_aligned_put_hdr)

lemma links_aligned_fields [simp]:
  "links_aligned g (s\<lparr>mem := m\<rparr>) = links_aligned g s"
  "links_aligned g (s\<lparr>mapped := mp\<rparr>) = links_aligned g s"
  "links_aligned g (s\<lparr>blocks_allocated := b\<rparr>) = links_aligned g s"
  "links_aligned g (s\<lparr>num_bm_pages := n\<rparr>) = links_aligned g s"
  by (simp_all add: links_aligned_def)

lemma links_aligned_unmap:
  "links_aligned g s \<Longrightarrow> links_aligned g (unmap_range s a sz)"
  by (auto simp: links_aligned_def unmap_range_def list_all_iff)

lemma links_aligned_map:
  "links_aligned g s \<Longrightarrow> links_aligned g (map_range s a sz)"
  by (auto simp: links_aligned_def map_range_def)

lemma links_aligned_munmap:
  "links_aligned g s \<Longrightarrow> links_aligned g (call_munmap s a sz)"
  by (simp add: call_munmap_def links_aligned_unmap)

lemma zero_header_aligned [simp]:
  "page_aligned g (pg_next (zero_header g))" "page_aligned g (pg_prev (zero_header g))"
  by (simp_all add: zero_header_def)

lemma links_aligned_mmap:
  "links_aligned g s \<Longrightarrow> call_mmap g os s sz clean = (r, s') \<Longrightarrow> links_aligned g s'"
  by (auto simp: call_mmap_def Let_def split: option.splits if_splits
        intro!: links_aligned_put_hdr links_aligned_map)

lemma call_mmap_result:
  "os_aligned g os \<Longrightarrow> call_mmap g os s sz clean = (r, s') \<Longrightarrow> page_aligned g r"
  by (auto simp: call_mmap_def os_aligned_def Let_def split: option.splits)

lemma links_aligned_mremap:
  "links_aligned g s \<Longrightarrow> call_mremap g os s a old_nbytes new_nbytes clean = (r, s')
   \<Longrightarrow> links_aligned g s'"
proof -
  assume inv: "links_aligned g s" and c: "call_mremap g os s a old_nbytes new_nbytes clean = (r, s')"
  define h where "h = (case map_of (pages s) a of None \<Rightarrow> zero_header g | Some h0 \<Rightarrow> h0)"
  have h: "page_aligned g (pg_next h)" "page_aligned g (pg_prev h)"
    using inv unfolding h_def
    by (auto simp: links_aligned_def list_all_iff split: option.splits dest!: map_of_SomeD)
  have "links_aligned g (put_hdr (map_range (unmap_range s a x) y z) y h)" for x y z
    using inv h by (intro links_aligned_put_hdr links_aligned_map links_aligned_unmap)
  then show ?thesis
    using c inv unfolding call_mremap_def Let_def h_def [symmetric]
    by (auto split: option.splits if_splits)
qed

lemma first_used_slot_aligned:
  "list_all (\<lambda>e. page_aligned g (snd e)) sb \<Longrightarrow> page_aligned g (first_used_slot mdu sb lfb)"
proof (induction mdu sb lfb rule: first_used_slot.induct)
  case (1 mdu sb lfb)
  show ?case
  proof (cases "lfb \<le> mdu")
    case False
    then show ?thesis by (subst first_used_slot.simps) simp
  next
    case True
    show ?thesis
    proof (cases "map_of sb lfb")
      case None
      then show ?thesis
        using True 1 by (subst first_used_slot.simps) simp
    next
      case (Some p)
      then have "page_aligned g p"
        using 1(3) by (auto simp: list_all_iff dest!: map_of_SomeD)
      then show ?thesis
        using True Some 1 by (subst first_used_slot.simps) simp
    qed
  qed
qed

lemma links_aligned_add_entry:
  assumes inv: "links_aligned g s" and al: "page_aligned g bm_page"
    and add: "add_to_superblock_entry s bm_page lfb = Inr s'"
  shows "links_aligned g s'"
proof (cases "slot s lfb \<noteq> 0")
  case True
  define first where "first = slot s lfb"
  have f: "page_aligned g first" unfolding first_def using inv by (rule links_aligned_slot)
  from add True obtain fh s1 s2 fh2 s3 s4 where
    1: "get_hdr s first = Inr fh" and 2: "set_prev s bm_page (pg_prev fh) = Inr s1"
    and 3: "set_next s1 bm_page first = Inr s2" and 4: "get_hdr s2 first = Inr fh2"
    and 5: "set_next s2 (pg_prev fh2) bm_page = Inr s3"
    and 6: "set_prev s3 first bm_page = Inr s4"
    and 7: "set_list s4 bm_page (Some lfb) = Inr s'"
    unfolding add_to_superblock_entry_def Let_def first_def [symmetric]
    by (simp add: first_def) (elim bind_f_Inr, blast)
  have "page_aligned g (pg_prev fh)" using links_aligned_get_hdr [OF inv 1] by simp
  then have i1: "links_aligned g s1" using inv 2 by (blast intro: links_aligned_set_prev)
  have i2: "links_aligned g s2" using i1 f 3 by (blast intro: links_aligned_set_next)
  have i3: "links_aligned g s3" using i2 al 5 by (blast intro: links_aligned_set_next)
  have i4: "links_aligned g s4" using i3 al 6 by (blast intro: links_aligned_set_prev)
  show ?thesis using i4 7 by (rule links_aligned_set_list)
next
  case False
  from add False obtain s1 s2 where
    1: "set_prev s bm_page bm_page = Inr s1" and 2: "set_next s1 bm_page bm_page = Inr s2"
    and 3: "set_list (set_slot s2 lfb bm_page) bm_page (Some lfb) = Inr s'"
    unfolding add_to_superblock_entry_def Let_def
    by simp (elim bind_f_Inr, blast)
  have i1: "links_aligned g s1" using inv al 1 by (blast intro: links_aligned_set_prev)
  have i2: "links_aligned g s2" using i1 al 2 by (blast intro: links_aligned_set_next)
  have "links_aligned g (set_slot s2 lfb bm_page)" using i2 al by (rule links_aligned_set_slot)
  then show ?thesis using 3 by (rule links_aligned_set_list)
qed

lemma links_aligned_delete:
  assumes inv: "links_aligned g s" and del: "delete_from_list s bm_page = Inr s'"
  shows "links_aligned g s'"
proof -
  from del obtain h where h: "get_hdr s bm_page = Inr h"
    unfolding delete_from_list_def by (elim bind_f_Inr)
  note ha = links_aligned_get_hdr [OF inv h]
  from del h obtain k where k: "pg_list h = Some k"
    by (cases "pg_list h") (auto simp: delete_from_list_def bind_f_def)
  show ?thesis
  proof (cases "pg_next h = pg_prev h")
    case True
    then have "s' = set_slot s k 0"
      using del h k by (simp add: delete_from_list_def bind_f_def)
    then show ?thesis using inv by (simp add: links_aligned_set_slot)
  next
    case False
    define s1 where "s1 = (if slot s k = bm_page then set_slot s k (pg_next h) else s)"
    have s1: "links_aligned g s1"
      using inv ha by (simp add: s1_def links_aligned_set_slot)
    from del h k False have
      "bind_f (set_prev s1 (pg_next h) (pg_prev h)) (\<lambda>s2.
         bind_f (get_hdr s2 bm_page) (\<lambda>h2. set_next s2 (pg_prev h2) (pg_next h2))) = Inr s'"
      by (simp add: delete_from_list_def bind_f_def Let_def s1_def)
    then obtain s2 h2 where 1: "set_prev s1 (pg_next h) (pg_prev h) = Inr s2"
      and 2: "get_hdr s2 bm_page = Inr h2"
      and 3: "set_next s2 (pg_prev h2) (pg_next h2) = Inr s'"
      by (elim bind_f_Inr)
    have i2: "links_aligned g s2" using s1 ha 1 by (blast intro: links_aligned_set_prev)
    have "page_aligned g (pg_next h2)" using links_aligned_get_hdr [OF i2 2] by simp
    then show ?thesis using i2 3 by (blast intro: links_aligned_set_next)
  qed
qed

lemma links_aligned_add:
  assumes inv: "links_aligned g s" and al: "page_aligned g bm_page"
    and add: "add_to_superblock g s bm_page = Inr s'"
  shows "links_aligned g s'"
proof -
  from add obtain h where h: "get_hdr s bm_page = Inr h"
    and c: "(case find_longest_free_block g (bitmap_of (pg_bitmap h)) of
               None \<Rightarrow> Inl Hang
             | Some lfb \<Rightarrow> add_to_superblock_entry s bm_page lfb) = Inr s'"
    unfolding add_to_superblock_def by (elim bind_f_Inr)
  from c obtain lfb where "add_to_superblock_entry s bm_page lfb = Inr s'"
    by (cases "find_longest_free_block g (bitmap_of (pg_bitmap h))") auto
  with inv al show ?thesis by (rule links_aligned_add_entry)
qed

lemma links_aligned_find_page:
  assumes inv: "links_aligned g s" and fp: "find_available_page g s num_units = Inr (p, s')"
  shows "links_aligned g s' \<and> page_aligned g p"
proof -
  define q where "q = first_used_slot (max_data_units g) (superblock s) num_units"
  have q: "page_aligned g q"
    unfolding q_def using inv by (intro first_used_slot_aligned) (simp add: links_aligned_def)
  show ?thesis
  proof (cases "q = 0")
    case True
    then show ?thesis
      using fp inv by (simp add: find_available_page_def Let_def q_def [symmetric])
  next
    case False
    then have "bind_f (delete_from_list s q) (\<lambda>s1. Inr (q, s1)) = Inr (p, s')"
      using fp by (simp add: find_available_page_def Let_def q_def [symmetric])
    then obtain s1 where "delete_from_list s q = Inr s1" and "p = q" "s' = s1"
      by (elim bind_f_Inr) simp
    then show ?thesis using inv q by (auto intro: links_aligned_delete)
  qed
qed

lemma links_aligned_out:
  "bm_allocate_out s result num_units clean = (a, s')
   \<Longrightarrow> a = result \<and> links_aligned g s' = links_aligned g s"
  by (auto simp: bm_allocate_out_def Let_def split: if_splits)

lemma bm_allocate_aligned:
  assumes ok: "params_ok g" and inv: "links_aligned g s" and os: "os_aligned g os"
    and al: "bm_allocate g os s num_units clean = Inr (a, s')"
  shows "links_aligned g s'
         \<and> (a \<noteq> 0 \<longrightarrow>
              (\<exists>p off. a = p + off * UNIT_SIZE \<and> page_aligned g p
                  \<and> bm_page_header_size_in_units g \<le> off \<and> off < units_per_page g))"
proof -
  from al obtain bm_page s1 where fp: "find_available_page g s num_units = Inr (bm_page, s1)"
    unfolding bm_allocate_def by (elim bind_f_Inr) auto
  note i1 = links_aligned_find_page [OF inv fp]
  have hdr: "0 < bm_page_header_size_in_units g"
    "bm_page_header_size_in_units g < units_per_page g"
    using ok by (auto simp: params_ok_def)
  show ?thesis
  proof (cases "bm_page \<noteq> 0")
    case True
    from al fp True obtain h where h: "get_hdr s1 bm_page = Inr h"
      and c: "(case find_free_block g (bitmap_of (pg_bitmap h)) num_units of
                 None \<Rightarrow> Inl Hang
               | Some offset \<Rightarrow>
                   if offset = 0 then Inl Abort
                   else
                     bind_f (set_bitmap s1 bm_page
                               (set_bits (bitmap_of (pg_bitmap h)) offset num_units))
                       (\<lambda>s2.
                     bind_f (add_to_superblock g s2 bm_page) (\<lambda>s3.
                     Inr (bm_allocate_out s3 (bm_page + offset * UNIT_SIZE) num_units clean))))
              = Inr (a, s')"
      unfolding bm_allocate_def by (simp add: bind_f_def split: sum.splits)
    from c obtain offset where ff: "find_free_block g (bitmap_of (pg_bitmap h)) num_units = Some offset"
      by (cases "find_free_block g (bitmap_of (pg_bitmap h)) num_units") auto
    from c ff have nz: "offset \<noteq> 0" by (auto split: if_splits)
    from c ff nz obtain s2 s3 where
      sb: "set_bitmap s1 bm_page (set_bits (bitmap_of (pg_bitmap h)) offset num_units) = Inr s2"
      and ad: "add_to_superblock g s2 bm_page = Inr s3"
      and out: "bm_allocate_out s3 (bm_page + offset * UNIT_SIZE) num_units clean = (a, s')"
      by simp (elim bind_f_Inr, simp)
    have i2: "links_aligned g s2" using i1 sb by (blast intro: links_aligned_set_bitmap)
    have i3: "links_aligned g s3" using i2 i1 ad by (blast intro: links_aligned_add)
    from links_aligned_out [OF out, of g] i3
    have r: "a = bm_page + offset * UNIT_SIZE" "links_aligned g s'" by simp_all
    from find_free_block_range [OF ok ff] nz
    have "bm_page_header_size_in_units g \<le> offset" "offset < units_per_page g" by auto
    with r i1 show ?thesis by blast
  next
    case False
    obtain p s2 where mm: "call_mmap g os s1 (sys_page_size g) False = (p, s2)"
      by (cases "call_mmap g os s1 (sys_page_size g) False")
    have i2: "links_aligned g s2" using i1 mm by (blast intro: links_aligned_mmap)
    have p: "page_aligned g p" using os mm by (rule call_mmap_result)
    show ?thesis
    proof (cases "p = 0")
      case True
      then have "bm_allocate_out s2 0 num_units clean = (a, s')"
        using al fp False mm by (simp add: bm_allocate_def bind_f_def)
      from links_aligned_out [OF this, of g] i2 show ?thesis by simp
    next
      case pz: False
      from al fp False mm pz obtain h s3 s4 where h: "get_hdr s2 p = Inr h"
        and sb: "set_bitmap s2 p
                   (set_bits
                      (clean_bitmap (bitmap_of (pg_bitmap h))
                         (nat (units_per_page g div WORD_WIDTH)))
                      0 (uadd (bm_page_header_size_in_units g) num_units)) = Inr s3"
        and ad: "add_to_superblock_entry s3 p (usub (max_data_units g) num_units) = Inr s4"
        and out: "bm_allocate_out (s4\<lparr>num_bm_pages := (num_bm_pages s4 + 1) mod 2 ^ 64\<rparr>)
                    (p + bm_page_header_size_in_units g * UNIT_SIZE) num_units clean = (a, s')"
        unfolding bm_allocate_def
        by (simp add: bind_f_def split: sum.splits)
      have i3: "links_aligned g s3" using i2 sb by (blast intro: links_aligned_set_bitmap)
      have i4: "links_aligned g s4" using i3 p ad by (blast intro: links_aligned_add_entry)
      from links_aligned_out [OF out, of g] i4
      have r: "a = p + bm_page_header_size_in_units g * UNIT_SIZE" "links_aligned g s'"
        by simp_all
      with p hdr show ?thesis by blast
    qed
  qed
qed

lemma small_block_unaligned:
  assumes ok: "params_ok g" and pw: "sys_page_size g = 2 ^ k"
    and p: "page_aligned g p"
    and off: "bm_page_header_size_in_units g \<le> off" "off < units_per_page g"
  shows "bm_page_from_addr g (p + off * UNIT_SIZE) = p
         \<and> bm_page_from_addr g (p + off * UNIT_SIZE) \<noteq> p + off * UNIT_SIZE"
proof -
  have d: "0 < off * UNIT_SIZE" "off * UNIT_SIZE < sys_page_size g"
    using ok off by (auto simp: params_ok_def UNIT_SIZE_def)
  then have "bm_page_from_addr g (p + off * UNIT_SIZE) = p"
    using pw p by (intro page_of_inner) auto
  moreover have "p \<noteq> p + off * UNIT_SIZE" using d by linarith
  ultimately show ?thesis by simp
qed

lemma links_aligned_grab:
  "links_aligned g s \<Longrightarrow> grab_superblock_page s bm_page = Inr s' \<Longrightarrow> links_aligned g s'"
  unfolding grab_superblock_page_def by (rule links_aligned_delete)

lemma links_aligned_shrink:
  assumes inv: "links_aligned g s" and al: "page_aligned g bm_page"
    and sh: "bm_shrink g s bm_page offset old_num_units new_num_units = Inr s'"
  shows "links_aligned g s'"
proof -
  from sh obtain s1 h s2 where 1: "grab_superblock_page s bm_page = Inr s1"
    and h: "get_hdr s1 bm_page = Inr h"
    and 2: "set_bitmap s1 bm_page
              (clear_bits (bitmap_of (pg_bitmap h)) (uadd offset new_num_units)
                 (usub old_num_units new_num_units)) = Inr s2"
    and 3: "add_to_superblock g s2 bm_page = Inr s'"
    unfolding bm_shrink_def Let_def by (elim bind_f_Inr)
  have i1: "links_aligned g s1" using inv 1 by (rule links_aligned_grab)
  have i2: "links_aligned g s2" using i1 2 by (rule links_aligned_set_bitmap)
  show ?thesis using i2 al 3 by (rule links_aligned_add)
qed

lemma links_aligned_grow:
  assumes inv: "links_aligned g s" and al: "page_aligned g bm_page"
    and gr: "bm_grow g s bm_page offset old_num_units new_num_units = Inr (b, s')"
  shows "links_aligned g s'"
proof -
  from gr obtain s1 h where 1: "grab_superblock_page s bm_page = Inr s1"
    and h: "get_hdr s1 bm_page = Inr h"
    and c: "(let increment = usub new_num_units old_num_units;
                 len = count_zero_bits (units_per_page g) (bitmap_of (pg_bitmap h))
                         (uadd offset old_num_units) increment
             in if len < increment then Inr (False, s1)
                else
                  bind_f (set_bitmap s1 bm_page
                            (set_bits (bitmap_of (pg_bitmap h)) (uadd offset old_num_units)
                               increment))
                    (\<lambda>s2.
                  bind_f (add_to_superblock g s2 bm_page) (\<lambda>s3. Inr (True, s3)))) = Inr (b, s')"
    unfolding bm_grow_def by (elim bind_f_Inr)
  have i1: "links_aligned g s1" using inv 1 by (rule links_aligned_grab)
  define increment where "increment = usub new_num_units old_num_units"
  define len where "len = count_zero_bits (units_per_page g) (bitmap_of (pg_bitmap h))
                         (uadd offset old_num_units) increment"
  show ?thesis
  proof (cases "len < increment")
    case True
    then have "s' = s1"
      using c by (simp add: Let_def increment_def [symmetric] len_def [symmetric])
    then show ?thesis using i1 by simp
  next
    case False
    then have "bind_f (set_bitmap s1 bm_page
                         (set_bits (bitmap_of (pg_bitmap h)) (uadd offset old_num_units)
                            increment))
                 (\<lambda>s2. bind_f (add_to_superblock g s2 bm_page) (\<lambda>s3. Inr (True, s3)))
               = Inr (b, s')"
      using c by (simp add: Let_def increment_def [symmetric] len_def [symmetric])
    then obtain s2 where 2: "set_bitmap s1 bm_page
                         (set_bits (bitmap_of (pg_bitmap h)) (uadd offset old_num_units)
                            increment) = Inr s2"
      and 3: "add_to_superblock g s2 bm_page = Inr s'"
      by (elim bind_f_Inr) simp
    have i2: "links_aligned g s2" using i1 2 by (rule links_aligned_set_bitmap)
    show ?thesis using i2 al 3 by (rule links_aligned_add)
  qed
qed

lemma links_aligned_release:
  assumes inv: "links_aligned g s" and al: "page_aligned g bm_page"
    and rl: "bm_release g s bm_page offset num_units = Inr s'"
  shows "links_aligned g s'"
proof -
  from rl obtain s1 h s2 h2 where 1: "grab_superblock_page s bm_page = Inr s1"
    and h: "get_hdr s1 bm_page = Inr h"
    and 2: "set_bitmap s1 bm_page (clear_bits (bitmap_of (pg_bitmap h)) offset num_units) = Inr s2"
    and h2: "get_hdr s2 bm_page = Inr h2"
    and c: "(case find_longest_free_block g (bitmap_of (pg_bitmap h2)) of
               None \<Rightarrow> Inl Hang
             | Some lfb \<Rightarrow>
                 bind_f (if lfb < max_data_units g then add_to_superblock_entry s2 bm_page lfb
                         else Inr ((call_munmap s2 bm_page (sys_page_size g))
                                     \<lparr>num_bm_pages := (num_bm_pages s2 - 1) mod 2 ^ 64\<rparr>))
                   (\<lambda>s3. Inr (s3\<lparr>blocks_allocated := (blocks_allocated s3 - 1) mod 2 ^ 64\<rparr>)))
            = Inr s'"
    unfolding bm_release_def by (elim bind_f_Inr)
  have i1: "links_aligned g s1" using inv 1 by (rule links_aligned_grab)
  have i2: "links_aligned g s2" using i1 2 by (rule links_aligned_set_bitmap)
  from c obtain lfb where
    "bind_f (if lfb < max_data_units g then add_to_superblock_entry s2 bm_page lfb
             else Inr ((call_munmap s2 bm_page (sys_page_size g))
                         \<lparr>num_bm_pages := (num_bm_pages s2 - 1) mod 2 ^ 64\<rparr>))
       (\<lambda>s3. Inr (s3\<lparr>blocks_allocated := (blocks_allocated s3 - 1) mod 2 ^ 64\<rparr>)) = Inr s'"
    by (cases "find_longest_free_block g (bitmap_of (pg_bitmap h2))") auto
  then obtain s3 where 3: "(if lfb < max_data_units g then add_to_superblock_entry s2 bm_page lfb
             else Inr ((call_munmap s2 bm_page (sys_page_size g))
                         \<lparr>num_bm_pages := (num_bm_pages s2 - 1) mod 2 ^ 64\<rparr>)) = Inr s3"
    and 4: "s' = s3\<lparr>blocks_allocated := (blocks_allocated s3 - 1) mod 2 ^ 64\<rparr>"
    by (elim bind_f_Inr) simp
  have "links_aligned g s3"
  proof (cases "lfb < max_data_units g")
    case True
    then show ?thesis using 3 i2 al by (auto intro: links_aligned_add_entry)
  next
    case False
    then show ?thesis using 3 i2 by (auto intro: links_aligned_munmap)
  qed
  then show ?thesis using 4 by simp
qed

lemma links_aligned_pet_allocate:
  assumes ok: "params_ok g" and inv: "links_aligned g s" and os: "os_aligned g os"
    and al: "pet_allocate g os s nbytes clean = Inr (a, s')"
  shows "links_aligned g s'"
proof (cases "nbytes = 0")
  case True
  then show ?thesis using al inv by (simp add: pet_allocate_def)
next
  case nz: False
  show ?thesis
  proof (cases "bytes_to_units nbytes < max_data_units g")
    case True
    then have "bm_allocate g os s (bytes_to_units nbytes) clean = Inr (a, s')"
      using al nz by (simp add: pet_allocate_def Let_def)
    from bm_allocate_aligned [OF ok inv os this] show ?thesis by simp
  next
    case False
    obtain r s1 where mm: "call_mmap g os s (align_unsigned_to_page g nbytes) clean = (r, s1)"
      by (cases "call_mmap g os s (align_unsigned_to_page g nbytes) clean")
    have "links_aligned g s1" using inv mm by (rule links_aligned_mmap)
    then show ?thesis
      using al nz False mm by (auto simp: pet_allocate_def Let_def split: if_splits)
  qed
qed

lemma links_aligned_pet_release:
  assumes inv: "links_aligned g s" and rl: "pet_release g s a nbytes = Inr (a', s')"
  shows "links_aligned g s'"
proof (cases "a = 0")
  case True
  then show ?thesis using rl inv by (simp add: pet_release_def)
next
  case az: False
  then have nz: "nbytes \<noteq> 0" using rl by (auto simp: pet_release_def split: if_splits)
  show ?thesis
  proof (cases "a = bm_page_from_addr g a")
    case True
    then have "s' = (call_munmap s a (align_unsigned_to_page g nbytes))
                      \<lparr>blocks_allocated :=
                         (blocks_allocated (call_munmap s a (align_unsigned_to_page g nbytes)) - 1)
                         mod 2 ^ 64\<rparr>"
      using rl az nz by (simp add: pet_release_def Let_def)
    then show ?thesis using inv by (simp add: links_aligned_munmap)
  next
    case False
    then obtain s1 where
      "bm_release g s (bm_page_from_addr g a) (ptrdiff_to_units a (bm_page_from_addr g a))
         (bytes_to_units nbytes) = Inr s1" and "s' = s1"
      using rl az nz by (auto simp: pet_release_def Let_def split: sum.splits)
    then show ?thesis
      using links_aligned_release [OF inv page_aligned_page] by blast
  qed
qed

lemma links_aligned_remap:
  assumes "links_aligned g s"
    and "realloc_remap g os s a old_nbytes new_nbytes = Inr (b, a', ch, s')"
  shows "links_aligned g s'"
proof -
  obtain r s1 where mr: "call_mremap g os s a old_nbytes new_nbytes False = (r, s1)"
    by (cases "call_mremap g os s a old_nbytes new_nbytes False")
  then have "s' = s1" using assms(2) by (simp add: realloc_remap_def)
  then show ?thesis using links_aligned_mremap [OF assms(1) mr] by simp
qed

lemma links_aligned_realloc_block:
  assumes ok: "params_ok g" and inv: "links_aligned g s" and os: "os_aligned g os"
    and rb: "realloc_block g os s a old_nbytes new_nbytes clean = Inr (b, a', ch, s')"
  shows "links_aligned g s'"
proof -
  from rb obtain new_block s1 where
    al: "pet_allocate g os s new_nbytes False = Inr (new_block, s1)"
    by (cases "pet_allocate g os s new_nbytes False") (auto simp: realloc_block_def)
  have i1: "links_aligned g s1" using ok inv os al by (rule links_aligned_pet_allocate)
  show ?thesis
  proof (cases "new_block = 0")
    case True
    then show ?thesis using rb al i1 by (simp add: realloc_block_def)
  next
    case False
    define s2 where "s2 = s1\<lparr>mem := memcpy (mem s1) new_block a old_nbytes\<rparr>"
    have i2: "links_aligned g s2" using i1 by (simp add: s2_def)
    from rb al False obtain a3 s3 where rl: "pet_release g s2 a old_nbytes = Inr (a3, s3)"
      by (cases "pet_release g s2 a old_nbytes")
         (auto simp: realloc_block_def Let_def s2_def)
    have i3: "links_aligned g s3" using i2 rl by (rule links_aligned_pet_release)
    from rb al False rl have
      "s' = (if clean then s3\<lparr>mem := cleanse (mem s3) new_block old_nbytes new_nbytes\<rparr> else s3)"
      by (simp add: realloc_block_def Let_def s2_def)
    then show ?thesis using i3 by simp
  qed
qed

lemma links_aligned_pet_reallocate:
  assumes ok: "params_ok g" and inv: "links_aligned g s" and os: "os_aligned g os"
    and re: "pet_reallocate g os s a old_nbytes new_nbytes clean = Inr (b, a', ch, s')"
  shows "links_aligned g s'"
proof -
  define nu where "nu = bytes_to_units new_nbytes"
  define ou where "ou = bytes_to_units old_nbytes"
  define bp where "bp = bm_page_from_addr g a"
  define mdu where "mdu = max_data_units g"
  have bp: "page_aligned g bp" by (simp add: bp_def)
  note defs = pet_reallocate_def Let_def nu_def [symmetric] ou_def [symmetric]
    bp_def [symmetric] mdu_def [symmetric]
  show ?thesis
  proof (cases "old_nbytes = new_nbytes")
    case True
    then show ?thesis using re inv by (simp add: defs)
  next
    case c1: False
    show ?thesis
    proof (cases "a = 0")
      case True
      show ?thesis
      proof (cases "old_nbytes \<noteq> 0")
        case True
        then show ?thesis using re inv c1 \<open>a = 0\<close> by (simp add: defs)
      next
        case False
        then obtain a1 s1 where al: "pet_allocate g os s new_nbytes clean = Inr (a1, s1)"
          and "s' = s1"
          using re c1 \<open>a = 0\<close>
          by (cases "pet_allocate g os s new_nbytes clean") (auto simp: defs split: if_splits)
        then show ?thesis using links_aligned_pet_allocate [OF ok inv os al] by simp
      qed
    next
      case c2: False
      show ?thesis
      proof (cases "(old_nbytes OR new_nbytes) = 0")
        case True
        then show ?thesis using re inv c1 c2 by (simp add: defs)
      next
        case c3: False
        show ?thesis
        proof (cases "nu = ou")
          case True
          then show ?thesis using re inv c1 c2 c3 by (auto simp: defs split: if_splits)
        next
          case c4: False
          show ?thesis
          proof (cases "nu < ou")
            case A: True
            show ?thesis
            proof (cases "nu < mdu")
              case A1: True
              show ?thesis
              proof (cases "ou < mdu")
                case True
                then obtain s1 where
                  "bm_shrink g s bp (ptrdiff_to_units a bp) ou nu = Inr s1" and "s' = s1"
                  using re c1 c2 c3 c4 A A1
                  by (cases "bm_shrink g s bp (ptrdiff_to_units a bp) ou nu")
                     (auto simp: defs split: if_splits)
                then show ?thesis using links_aligned_shrink [OF inv bp] by blast
              next
                case False
                then obtain nb s1 where al: "bm_allocate g os s nu False = Inr (nb, s1)"
                  using re c1 c2 c3 c4 A A1
                  by (cases "bm_allocate g os s nu False") (auto simp: defs split: if_splits)
                note cs = c1 c2 c3 c4 A A1 False
                have i1: "links_aligned g s1" using bm_allocate_aligned [OF ok inv os al] by simp
                show ?thesis
                proof (cases "nb = 0")
                  case True
                  then have "realloc_remap g os s1 a old_nbytes new_nbytes = Inr (b, a', ch, s')"
                    using re cs al by (simp add: defs split: if_splits)
                  with i1 show ?thesis by (rule links_aligned_remap)
                next
                  case False
                  define s2 where "s2 = s1\<lparr>mem := memcpy (mem s1) nb a new_nbytes\<rparr>"
                  have i2: "links_aligned g s2" using i1 by (simp add: s2_def)
                  from False re cs al obtain s3 where
                    "bm_release g s2 bp (ptrdiff_to_units a bp) nu = Inr s3" and "s' = s3"
                    by (cases "bm_release g s2 bp (ptrdiff_to_units a bp) nu")
                       (auto simp: defs s2_def split: if_splits)
                  then show ?thesis using links_aligned_release [OF i2 bp] by blast
                qed
              qed
            next
              case False
              then have "realloc_remap g os s a old_nbytes new_nbytes = Inr (b, a', ch, s')"
                using re c1 c2 c3 c4 A by (simp add: defs split: if_splits)
              with inv show ?thesis by (rule links_aligned_remap)
            qed
          next
            case B: False
            show ?thesis
            proof (cases "ou < mdu")
              case B1: True
              show ?thesis
              proof (cases "nu < mdu")
                case True
                then obtain grown s1 where
                  gr: "bm_grow g s bp (ptrdiff_to_units a bp) ou nu = Inr (grown, s1)"
                  using re c1 c2 c3 c4 B B1
                  by (cases "bm_grow g s bp (ptrdiff_to_units a bp) ou nu")
                     (auto simp: defs split: if_splits)
                note cs = c1 c2 c3 c4 B B1 True
                have i1: "links_aligned g s1" using inv bp gr by (rule links_aligned_grow)
                show ?thesis
                proof (cases grown)
                  case True
                  then show ?thesis
                    using re cs gr i1 by (auto simp: defs split: if_splits)
                next
                  case False
                  then have "realloc_block g os s1 a old_nbytes new_nbytes clean
                             = Inr (b, a', ch, s')"
                    using re cs gr by (simp add: defs split: if_splits)
                  with ok i1 os show ?thesis by (rule links_aligned_realloc_block)
                qed
              next
                case False
                then have "realloc_block g os s a old_nbytes new_nbytes clean
                           = Inr (b, a', ch, s')"
                  using re c1 c2 c3 c4 B B1 by (simp add: defs)
                with ok inv os show ?thesis by (rule links_aligned_realloc_block)
              qed
            next
              case False
              obtain r s1 where
                mr: "call_mremap g os s a old_nbytes new_nbytes clean = (r, s1)"
                by (cases "call_mremap g os s a old_nbytes new_nbytes clean")
              then have "s' = s1"
                using re c1 c2 c3 c4 B False by (auto simp: defs split: if_splits)
              then show ?thesis using links_aligned_mremap [OF inv mr] by simp
            qed
          qed
        qed
      qed
    qed
  qed
qed

lemma links_aligned_run_request:
  assumes ok: "params_ok g" and inv: "links_aligned g s" and os: "os_aligned g os"
    and run: "run_request g os s r = Inr s'"
  shows "links_aligned g s'"
proof (cases r)
  case (Allocate nbytes clean)
  with run obtain a where "pet_allocate g os s nbytes clean = Inr (a, s')"
    by (auto simp: run_request_def elim!: bind_f_Inr)
  with ok inv os show ?thesis by (rule links_aligned_pet_allocate)
next
  case (Release a nbytes)
  with run obtain a1 where "pet_release g s a nbytes = Inr (a1, s')"
    by (auto simp: run_request_def elim!: bind_f_Inr)
  with inv show ?thesis by (rule links_aligned_pet_release)
next
  case (Reallocate a old_nbytes new_nbytes clean)
  with run obtain b a1 ch where
    "pet_reallocate g os s a old_nbytes new_nbytes clean = Inr (b, a1, ch, s')"
    by (auto simp: run_request_def elim!: bind_f_Inr)
  with ok inv os show ?thesis by (rule links_aligned_pet_reallocate)
qed

lemma links_aligned_run_requests:
  assumes ok: "params_ok g"
  shows "links_aligned g s \<Longrightarrow> list_all (\<lambda>e. os_aligned g (fst e)) rs
         \<Longrightarrow> run_requests g s rs = Inr s' \<Longrightarrow> links_aligned g s'"
proof (induction rs arbitrary: s)
  case Nil
  then show ?case by simp
next
  case (Cons e rs)
  obtain os r where e: "e = (os, r)" by (cases e)
  from Cons.prems(3) e obtain s1 where 1: "run_request g os s r = Inr s1"
    and 2: "run_requests g s1 rs = Inr s'"
    by (auto elim!: bind_f_Inr)
  have "links_aligned g s1"
    using ok Cons.prems(1) _ 1 by (rule links_aligned_run_request) (use Cons.prems(2) e in simp)
  then show ?case using Cons.prems(2) 2 by (intro Cons.IH) auto
qed

lemma links_aligned_init: "links_aligned g init_state"
  by (simp add: links_aligned_def init_state_def)

lemma call_mremap_result:
  "os_aligned g os \<Longrightarrow> call_mremap g os s a old_nbytes new_nbytes clean = (r, s')
   \<Longrightarrow> r = a \<or> r = 0 \<or> page_aligned g r"
  by (auto simp: call_mremap_def os_aligned_def Let_def split: option.splits if_splits)

lemma small_block_class:
  assumes ok: "params_ok g" and pw: "sys_page_size g = 2 ^ k"
    and p: "page_aligned g p"
    and off: "bm_page_header_size_in_units g \<le> off" "off < units_per_page g"
    and a: "a = p + off * UNIT_SIZE"
  shows "bm_page_from_addr g a \<noteq> a
         \<and> bm_page_header_size_in_units g \<le> ptrdiff_to_units a (bm_page_from_addr g a)
         \<and> ptrdiff_to_units a (bm_page_from_addr g a) < units_per_page g
         \<and> a = bm_page_from_addr g a + ptrdiff_to_units a (bm_page_from_addr g a) * UNIT_SIZE"
proof -
  from small_block_unaligned [OF ok pw p off]
  have pg: "bm_page_from_addr g a = p" and ne: "bm_page_from_addr g a \<noteq> a"
    unfolding a by blast+
  have "0 \<le> off" "off < 2 ^ 32"
    using ok off by (auto simp: params_ok_def UNIT_SIZE_def)
  then have "ptrdiff_to_units a p = off"
    by (simp add: ptrdiff_to_units_def a UNIT_SIZE_def)
  with pg ne off a show ?thesis by simp
qed

lemma pet_allocate_class:
  assumes ok: "params_ok g" and inv: "links_aligned g s" and os: "os_aligned g os"
    and al: "pet_allocate g os s nbytes clean = Inr (a, s')" and nz: "a \<noteq> 0"
  shows "(bytes_to_units nbytes < max_data_units g \<longrightarrow>
            (\<exists>p off. a = p + off * UNIT_SIZE \<and> page_aligned g p
                \<and> bm_page_header_size_in_units g \<le> off \<and> off < units_per_page g))
         \<and> (\<not> bytes_to_units nbytes < max_data_units g \<longrightarrow> page_aligned g a)"
proof -
  have n0: "nbytes \<noteq> 0" using al nz by (auto simp: pet_allocate_def)
  show ?thesis
  proof (cases "bytes_to_units nbytes < max_data_units g")
    case True
    then have "bm_allocate g os s (bytes_to_units nbytes) clean = Inr (a, s')"
      using al n0 by (simp add: pet_allocate_def Let_def)
    from bm_allocate_aligned [OF ok inv os this] nz True show ?thesis by simp
  next
    case False
    obtain r s1 where mm: "call_mmap g os s (align_unsigned_to_page g nbytes) clean = (r, s1)"
      by (cases "call_mmap g os s (align_unsigned_to_page g nbytes) clean")
    then have "a = r" using al n0 False by (simp add: pet_allocate_def Let_def)
    then show ?thesis using call_mmap_result [OF os mm] False by simp
  qed
qed

lemma realloc_block_class:
  assumes ok: "params_ok g" and inv: "links_aligned g s" and os: "os_aligned g os"
    and rb: "realloc_block g os s a old_nbytes new_nbytes clean = Inr (True, a', True, s')"
  shows "(bytes_to_units new_nbytes < max_data_units g \<longrightarrow>
            (\<exists>p off. a' = p + off * UNIT_SIZE \<and> page_aligned g p
                \<and> bm_page_header_size_in_units g \<le> off \<and> off < units_per_page g))
         \<and> (\<not> bytes_to_units new_nbytes < max_data_units g \<longrightarrow> page_aligned g a')"
proof -
  from rb obtain new_block s1 where
    al: "pet_allocate g os s new_nbytes False = Inr (new_block, s1)"
    by (cases "pet_allocate g os s new_nbytes False") (auto simp: realloc_block_def)
  have nz: "new_block \<noteq> 0" using rb al by (auto simp: realloc_block_def split: if_splits)
  have "a' = new_block"
    using rb al nz
    by (cases "pet_release g (s1\<lparr>mem := memcpy (mem s1) new_block a old_nbytes\<rparr>) a old_nbytes")
       (auto simp: realloc_block_def Let_def)
  with pet_allocate_class [OF ok inv os al nz] show ?thesis by simp
qed

lemma pet_reallocate_class:
  assumes ok: "params_ok g" and inv: "links_aligned g s" and os: "os_aligned g os"
    and re: "pet_reallocate g os s a old_nbytes new_nbytes clean = Inr (True, a', True, s')"
  shows "(bytes_to_units new_nbytes < max_data_units g \<longrightarrow>
            (\<exists>p off. a' = p + off * UNIT_SIZE \<and> page_aligned g p
                \<and> bm_page_header_size_in_units g \<le> off \<and> off < units_per_page g))
         \<and> (\<not> bytes_to_units new_nbytes < max_data_units g \<longrightarrow> page_aligned g a')"
proof -
  define nu where "nu = bytes_to_units new_nbytes"
  define ou where "ou = bytes_to_units old_nbytes"
  define bp where "bp = bm_page_from_addr g a"
  define mdu where "mdu = max_data_units g"
  have bp: "page_aligned g bp" by (simp add: bp_def)
  note defs = pet_reallocate_def Let_def nu_def [symmetric] ou_def [symmetric]
    bp_def [symmetric] mdu_def [symmetric]
  let ?goal = "(nu < mdu \<longrightarrow>
            (\<exists>p off. a' = p + off * UNIT_SIZE \<and> page_aligned g p
                \<and> bm_page_header_size_in_units g \<le> off \<and> off < units_per_page g))
         \<and> (\<not> nu < mdu \<longrightarrow> page_aligned g a')"
  have c1: "old_nbytes \<noteq> new_nbytes" using re by (auto simp: defs)
  have ?goal
  proof (cases "a = 0")
    case True
    then have o0: "old_nbytes = 0" using re c1 by (auto simp: defs split: if_splits)
    then obtain a1 s1 where al: "pet_allocate g os s new_nbytes clean = Inr (a1, s1)"
      using re c1 True
      by (cases "pet_allocate g os s new_nbytes clean") (auto simp: defs split: if_splits)
    then have "a1 \<noteq> 0" "a' = a1"
      using re c1 True o0 by (auto simp: defs split: if_splits)
    with pet_allocate_class [OF ok inv os al] show ?thesis by (simp add: nu_def mdu_def)
  next
    case c2: False
    have c3: "(old_nbytes OR new_nbytes) \<noteq> 0" using re c1 c2 by (auto simp: defs)
    have c4: "nu \<noteq> ou" using re c1 c2 c3 by (auto simp: defs)
    show ?thesis
    proof (cases "nu < ou")
      case A: True
      show ?thesis
      proof (cases "nu < mdu")
        case A1: True
        show ?thesis
        proof (cases "ou < mdu")
          case True
          then show ?thesis
            using re c1 c2 c3 c4 A A1
            by (cases "bm_shrink g s bp (ptrdiff_to_units a bp) ou nu")
               (auto simp: defs split: if_splits)
        next
          case False
          then obtain nb s1 where al: "bm_allocate g os s nu False = Inr (nb, s1)"
            using re c1 c2 c3 c4 A A1
            by (cases "bm_allocate g os s nu False") (auto simp: defs split: if_splits)
          note cs = c1 c2 c3 c4 A A1 False
          have nz: "nb \<noteq> 0"
            using re cs al by (auto simp: defs realloc_remap_def split: if_splits prod.splits)
          have "a' = nb"
            using re cs al nz
            by (cases "bm_release g (s1\<lparr>mem := memcpy (mem s1) nb a new_nbytes\<rparr>) bp
                         (ptrdiff_to_units a bp) nu")
               (auto simp: defs split: if_splits)
          with bm_allocate_aligned [OF ok inv os al] nz A1 show ?thesis by simp
        qed
      next
        case False
        then show ?thesis
          using re c1 c2 c3 c4 A
          by (auto simp: defs realloc_remap_def split: if_splits prod.splits)
      qed
    next
      case B: False
      show ?thesis
      proof (cases "ou < mdu")
        case B1: True
        show ?thesis
        proof (cases "nu < mdu")
          case True
          then obtain grown s1 where
            gr: "bm_grow g s bp (ptrdiff_to_units a bp) ou nu = Inr (grown, s1)"
            using re c1 c2 c3 c4 B B1
            by (cases "bm_grow g s bp (ptrdiff_to_units a bp) ou nu")
               (auto simp: defs split: if_splits)
          note cs = c1 c2 c3 c4 B B1 True
          have i1: "links_aligned g s1" using inv bp gr by (rule links_aligned_grow)
          have ng: "\<not> grown" using re cs gr by (auto simp: defs split: if_splits)
          then have "realloc_block g os s1 a old_nbytes new_nbytes clean
                     = Inr (True, a', True, s')"
            using re cs gr by (simp add: defs split: if_splits)
          from realloc_block_class [OF ok i1 os this] show ?thesis
            by (simp add: nu_def mdu_def)
        next
          case False
          then have "realloc_block g os s a old_nbytes new_nbytes clean
                     = Inr (True, a', True, s')"
            using re c1 c2 c3 c4 B B1 by (simp add: defs)
          from realloc_block_class [OF ok inv os this] show ?thesis
            by (simp add: nu_def mdu_def)
        qed
      next
        case False
        obtain r s1 where
          mr: "call_mremap g os s a old_nbytes new_nbytes clean = (r, s1)"
          by (cases "call_mremap g os s a old_nbytes new_nbytes clean")
        then have "a' = r" "r \<noteq> 0" "r \<noteq> a"
          using re c1 c2 c3 c4 B False by (auto simp: defs split: if_splits)
        then have "page_aligned g a'" using call_mremap_result [OF os mr] by simp
        moreover have "\<not> nu < mdu" using B False by simp
        ultimately show ?thesis by simp
      qed
    qed
  qed
  then show ?thesis by (simp add: nu_def mdu_def)
qed

lemma returned_block_paths:
  assumes ok: "params_ok g" and inv: "links_aligned g s" and os: "os_aligned g os"
    and ret: "returned_block g os s r = Some (a, nbytes)"
  shows "(bytes_to_units nbytes < max_data_units g \<longrightarrow>
            (\<exists>p off. a = p + off * UNIT_SIZE \<and> page_aligned g p
                \<and> bm_page_header_size_in_units g \<le> off \<and> off < units_per_page g))
         \<and> (\<not> bytes_to_units nbytes < max_data_units g \<longrightarrow> page_aligned g a)"
proof (cases r)
  case (Allocate n clean)
  with ret obtain s1 where "pet_allocate g os s n clean = Inr (a, s1)" "a \<noteq> 0" "nbytes = n"
    by (cases "pet_allocate g os s n clean")
       (auto simp: returned_block_def split: if_splits)
  with pet_allocate_class [OF ok inv os] show ?thesis by blast
next
  case (Release a0 n)
  with ret show ?thesis by (simp add: returned_block_def)
next
  case (Reallocate a0 old_nbytes new_nbytes clean)
  with ret obtain s1 where
    "pet_reallocate g os s a0 old_nbytes new_nbytes clean = Inr (True, a, True, s1)"
    "nbytes = new_nbytes"
    by (cases "pet_reallocate g os s a0 old_nbytes new_nbytes clean")
       (auto simp: returned_block_def split: if_splits)
  with pet_reallocate_class [OF ok inv os] show ?thesis by blast
qed

lemma cls_s1_run:
  "run_requests g4k init_state [(os_page 65536, Allocate 2400 False)] = Inr cls_s1"
proof -
  have "map_sum id (\<lambda>s. ()) (run_requests g4k init_state [(os_page 65536, Allocate 2400 False)])
        = Inr ()"
    by code_simp
  then show ?thesis
    by (cases "run_requests g4k init_state [(os_page 65536, Allocate 2400 False)]")
       (auto simp: cls_s1_def)
qed

lemma os_aligned_4k:
  "os_aligned g4k (os_page 65536)" "os_aligned g4k (os_page 131072)" "os_aligned g4k os_none"
  by (simp_all add: os_aligned_def os_page_def os_none_def page_aligned_def
        bm_page_from_addr_def g4k_def init_params_def Let_def)

lemma cls_returned:
  "returned_block g4k os_none cls_s1 (Allocate 1632 False) = Some (68000, 1632)"
  "returned_block g4k (os_page 131072) cls_s1 (Allocate 8192 False) = Some (131072, 8192)"
  by code_simp+

section \<open>Claims on the bitmap primitives\<close>

text \<open>
  Claim C7.  For every bitmap, every offset below \<open>units_per_page\<close> and every hint,
  \<open>count_zero_bits\<close> returns a count \<open>c\<close> such that all bits in
  \<open>[offset, offset + c)\<close> are zero, \<open>offset + c\<close> does not exceed \<open>units_per_page\<close>,
  and \<open>c\<close> is below the hint only when the zero run ends there (the bitmap ends, or bit
  \<open>offset + c\<close> is set).  The count may exceed the hint: the witness has hint 1 and
  count 60.  The bitmap is a whole number of words, as \<^verbatim>\<open>_init\<close> makes it.
\<close>

theorem count_zero_bits_spec:
  assumes "WORD_WIDTH dvd upp" and "0 \<le> offset" and "offset < upp"
  shows "0 \<le> count_zero_bits upp bm offset hint
       \<and> (\<forall>j. offset \<le> j \<and> j < offset + count_zero_bits upp bm offset hint \<longrightarrow> \<not> bm_bit bm j)
       \<and> offset + count_zero_bits upp bm offset hint \<le> upp
       \<and> (count_zero_bits upp bm offset hint < hint \<longrightarrow>
            offset + count_zero_bits upp bm offset hint = upp
            \<or> bm_bit bm (offset + count_zero_bits upp bm offset hint))"
  using assms czb_spec [of upp offset bm hint] by (simp add: WORD_WIDTH_def)

theorem count_zero_bits_spec_witness:
  "count_zero_bits 256 ((\<lambda>_. 0)(0 := 15)) 4 1 = 60
   \<and> \<not> bm_bit ((\<lambda>_. 0)(0 := 15)) 10
   \<and> 4 + count_zero_bits 256 ((\<lambda>_. 0)(0 := 15)) 4 1 \<le> 256
   \<and> count_zero_bits 256 ((\<lambda>_. 0)(0 := 15, 1 := 1)) 4 1000 = 60
   \<and> bm_bit ((\<lambda>_. 0)(0 := 15, 1 := 1)) (4 + count_zero_bits 256 ((\<lambda>_. 0)(0 := 15, 1 := 1)) 4 1000)"
proof -
  have h: "WORD_WIDTH dvd 256" "(0::int) \<le> 4" "(4::int) < 256"
    by (simp_all add: WORD_WIDTH_def)
  have a: "count_zero_bits 256 ((\<lambda>_. 0)(0 := 15)) 4 1 = 60" by code_simp
  have b: "count_zero_bits 256 ((\<lambda>_. 0)(0 := 15, 1 := 1)) 4 1000 = 60" by code_simp
  note s1 = count_zero_bits_spec [OF h, of "(\<lambda>_. 0)(0 := 15)" 1]
  note s2 = count_zero_bits_spec [OF h, of "(\<lambda>_. 0)(0 := 15, 1 := 1)" 1000]
  from s1 have "\<not> bm_bit ((\<lambda>_. 0)(0 := 15)) 10" unfolding a by auto
  moreover from s1 have "4 + count_zero_bits 256 ((\<lambda>_. 0)(0 := 15)) 4 1 \<le> 256" by blast
  moreover from s2 have
    "bm_bit ((\<lambda>_. 0)(0 := 15, 1 := 1)) (4 + count_zero_bits 256 ((\<lambda>_. 0)(0 := 15, 1 := 1)) 4 1000)"
    unfolding b by auto
  ultimately show ?thesis using a b by blast
qed

text \<open>
  Claim C10.  For well-formed parameters \<^verbatim>\<open>find_longest_free_block\<close> and
  \<^verbatim>\<open>find_free_block\<close> return on every bitmap.  In each iteration of
  \<^verbatim>\<open>find_longest_free_block\<close>, entered with a budget \<open>n > 0\<close> that reaches the end
  of the bitmap, the zero count \<open>z\<close> and the nonzero count \<open>nz\<close> add up to at least 1
  and at most \<open>n\<close>, so that neither \<^verbatim>\<open>n -= length\<close> wraps around.  In each iteration of
  \<^verbatim>\<open>find_free_block\<close> that does not find the block, the offset grows and stays within
  the bitmap.  Nothing is asked of the header bits.
\<close>

theorem search_loops_terminate:
  assumes "params_ok g"
  shows "(\<exists>r. find_longest_free_block g bm = Some r)
       \<and> (\<exists>r. find_free_block g bm block_size = Some r)
       \<and> (\<forall>offset n. 0 \<le> offset \<and> 0 < n \<and> offset + n = units_per_page g \<longrightarrow>
            1 \<le> count_zero_bits (units_per_page g) bm offset n
                 + count_nonzero_bits (units_per_page g) bm
                     (offset + count_zero_bits (units_per_page g) bm offset n)
                     (usub n (count_zero_bits (units_per_page g) bm offset n))
            \<and> count_zero_bits (units_per_page g) bm offset n
                 + count_nonzero_bits (units_per_page g) bm
                     (offset + count_zero_bits (units_per_page g) bm offset n)
                     (usub n (count_zero_bits (units_per_page g) bm offset n)) \<le> n
            \<and> usub n (count_zero_bits (units_per_page g) bm offset n)
                 = n - count_zero_bits (units_per_page g) bm offset n)
       \<and> (\<forall>offset. 0 \<le> offset \<and> offset < units_per_page g
              \<and> count_zero_bits (units_per_page g) bm offset block_size < block_size \<longrightarrow>
            offset < offset + count_zero_bits (units_per_page g) bm offset block_size
                 + count_nonzero_bits (units_per_page g) bm
                     (offset + count_zero_bits (units_per_page g) bm offset block_size) UINT_MAX
            \<and> offset + count_zero_bits (units_per_page g) bm offset block_size
                 + count_nonzero_bits (units_per_page g) bm
                     (offset + count_zero_bits (units_per_page g) bm offset block_size) UINT_MAX
               \<le> units_per_page g)"
proof -
  note p = params_ok_upp [OF assms]
  have a: "\<exists>r. find_longest_free_block g bm = Some r"
    unfolding find_longest_free_block_def
    using p by (intro flf_terminates) auto
  have b: "\<exists>r. find_free_block g bm block_size = Some r"
    unfolding find_free_block_def
    using p by (intro ffb_terminates) auto
  have c: "1 \<le> count_zero_bits (units_per_page g) bm offset n
                 + count_nonzero_bits (units_per_page g) bm
                     (offset + count_zero_bits (units_per_page g) bm offset n)
                     (usub n (count_zero_bits (units_per_page g) bm offset n))
            \<and> count_zero_bits (units_per_page g) bm offset n
                 + count_nonzero_bits (units_per_page g) bm
                     (offset + count_zero_bits (units_per_page g) bm offset n)
                     (usub n (count_zero_bits (units_per_page g) bm offset n)) \<le> n
            \<and> usub n (count_zero_bits (units_per_page g) bm offset n)
                 = n - count_zero_bits (units_per_page g) bm offset n"
    if "0 \<le> offset" "0 < n" "offset + n = units_per_page g" for offset n
    using flf_step [OF p(1,2) that, of bm] by blast
  have d: "offset < offset + count_zero_bits (units_per_page g) bm offset block_size
                 + count_nonzero_bits (units_per_page g) bm
                     (offset + count_zero_bits (units_per_page g) bm offset block_size) UINT_MAX
            \<and> offset + count_zero_bits (units_per_page g) bm offset block_size
                 + count_nonzero_bits (units_per_page g) bm
                     (offset + count_zero_bits (units_per_page g) bm offset block_size) UINT_MAX
               \<le> units_per_page g"
    if "0 \<le> offset" "offset < units_per_page g"
       "count_zero_bits (units_per_page g) bm offset block_size < block_size" for offset
    using ffb_step [OF p(1) that] .
  show ?thesis using a b c d by blast
qed

theorem search_loops_terminate_witness:
  "params_ok (init_params 4096)
   \<and> find_longest_free_block (init_params 4096) ((\<lambda>_. 0)(0 := 16383)) = Some 242
   \<and> find_free_block (init_params 4096) ((\<lambda>_. 0)(0 := 16383)) 3 = Some 14
   \<and> (\<exists>r. find_longest_free_block (init_params 4096) ((\<lambda>_. 0)(0 := 16383)) = Some r)
   \<and> (\<exists>r. find_free_block (init_params 4096) ((\<lambda>_. 0)(0 := 16383)) 3 = Some r)"
proof -
  note t = search_loops_terminate [OF params_ok_4096, of "(\<lambda>_. 0)(0 := 16383)" 3]
  have a: "find_longest_free_block (init_params 4096) ((\<lambda>_. 0)(0 := 16383)) = Some 242"
    by code_simp
  have b: "find_free_block (init_params 4096) ((\<lambda>_. 0)(0 := 16383)) 3 = Some 14"
    by code_simp
  from t have "\<exists>r. find_longest_free_block (init_params 4096) ((\<lambda>_. 0)(0 := 16383)) = Some r"
    by blast
  moreover from t have "\<exists>r. find_free_block (init_params 4096) ((\<lambda>_. 0)(0 := 16383)) 3 = Some r"
    by blast
  ultimately show ?thesis using a b params_ok_4096 by blast
qed

section \<open>Claims on the superblock lists\<close>

text \<open>
  Claim C2 (the code differs).  Two pages are filled one after the other, so both are
  linked in bucket 0: the slot holds the page at 65536, whose \<^verbatim>\<open>next\<close> is the page
  at 131072, whose \<^verbatim>\<open>next\<close> is the first page again.  In a list of two pages
  \<^verbatim>\<open>next\<close> and \<^verbatim>\<open>prev\<close> of each page are the same pointer, so the test
  \<^verbatim>\<open>bm_page->next == bm_page->prev\<close> of \<^verbatim>\<open>delete_from_list\<close> takes the list for a
  list of one page: deleting the first page stores \<^verbatim>\<open>nullptr\<close> in the slot, and the
  second page, whose \<^verbatim>\<open>list\<close> still points to the slot, is no longer reachable
  from it.
\<close>

theorem delete_from_list_two_pages:
  "(case run_requests g4k init_state (fill_page 65536 @ fill_page 131072) of
      Inl e \<Rightarrow> None
    | Inr s \<Rightarrow>
        Some (slot s 0, next_at s 65536, next_at s 131072,
              (case delete_from_list s 65536 of
                 Inl e \<Rightarrow> None
               | Inr s1 \<Rightarrow> Some (slot s1 0, list_at s1 131072, lfb_at s1 131072))))
   = Some (65536, Some 131072, Some 65536, Some (0, Some (Some 0), Some 0))"
  by code_simp

text \<open>
  Claim C3 (the code differs).  One page is filled; its second block occupies the
  units 154 to 255, so it cannot grow.  \<^verbatim>\<open>bm_grow\<close> from 102 to 103 units returns
  \<^verbatim>\<open>false\<close> and leaves the bitmap as it was, but the page, which was linked in
  bucket 0 before the call, is not linked any more: slot 0 is empty afterwards.
\<close>

theorem bm_grow_failure_unlinks:
  "(case run_requests g4k init_state (fill_page 65536) of
      Inl e \<Rightarrow> None
    | Inr s \<Rightarrow>
        Some (slot s 0, bitmap_at s 65536,
              (case bm_grow g4k s 65536 154 102 103 of
                 Inl e \<Rightarrow> None
               | Inr (grown, s1) \<Rightarrow> Some (grown, bitmap_at s1 65536, slot s1 0))))
   = Some (65536, Some [2 ^ 64 - 1, 2 ^ 64 - 1, 2 ^ 64 - 1, 2 ^ 64 - 1],
           Some (False, Some [2 ^ 64 - 1, 2 ^ 64 - 1, 2 ^ 64 - 1, 2 ^ 64 - 1], 0))"
  by code_simp

text \<open>
  Claim C4 (the code differs).  Three pages are filled and their first blocks
  released, so that the pages at 65536, 131072 and 196608 are linked in bucket 150,
  each with a block on its last 102 units.  Growing the block of the middle page from
  1632 to 1648 bytes fails in place (\<^verbatim>\<open>bm_grow\<close> leaves the page unlinked with its
  old \<^verbatim>\<open>next\<close> and \<^verbatim>\<open>prev\<close>), the new block is taken from the page at 65536,
  which moves to bucket 47, and the release of the old block deletes the middle page
  from its list a second time, which links the page at 196608 behind the page at
  65536.  One more allocation of 40 units takes the page at 65536 out of bucket 47
  and leaves the slot pointing at the page at 196608, whose longest free block is
  150 units.
\<close>

theorem bucket_invariant_broken:
  "(case run_requests g4k init_state
           (fill_page 65536 @ fill_page 131072 @ fill_page 196608
            @ [(os_none, Release 65600 2400), (os_none, Release 131136 2400),
               (os_none, Release 196672 2400),
               (os_none, Reallocate 133536 1632 1648 False),
               (os_none, Allocate 640 False)]) of
      Inl e \<Rightarrow> None
    | Inr s \<Rightarrow> Some (slot s 47, lfb_at s 196608, list_at s 196608))
   = Some (196608, Some 150, Some (Some 150))"
  by code_simp

section \<open>Claims on reallocation\<close>

text \<open>
  Claim C1 (the code differs).  A block of 8192 bytes is allocated: two pages from the
  operating system at 262144, zero-filled.  Reallocating it to 16 bytes allocates the
  small block (a new page at 65536) and copies 16 bytes, and then calls
  \<^verbatim>\<open>bm_release\<close> on the large block as if it were a page of the bitmap allocator:
  \<^verbatim>\<open>delete_from_list\<close> reads \<^verbatim>\<open>list\<close>, \<^verbatim>\<open>next\<close> and \<^verbatim>\<open>prev\<close> from the first
  bytes of the block, finds \<^verbatim>\<open>next == prev\<close> and stores through \<^verbatim>\<open>list\<close>, which
  is \<^verbatim>\<open>nullptr\<close>.  The call does not return.
\<close>

theorem reallocate_large_to_small:
  "bind_f (pet_allocate g4k (os_page 262144) init_state 8192 False)
     (\<lambda>(a, s). bind_f (pet_reallocate g4k (os_page 65536) s a 8192 16 False)
        (\<lambda>(ok, a1, changed, s1). Inr (a, ok, a1, changed)))
   = Inl NullDeref"
  by code_simp

text \<open>
  Claim C5 (the code differs).  With both sizes 0 the first test of \<^verbatim>\<open>_reallocate\<close>,
  \<^verbatim>\<open>old_nbytes == new_nbytes\<close>, holds: the call returns \<^verbatim>\<open>true\<close> with the address
  kept and \<^verbatim>\<open>addr_changed = false\<close>, for every address.  The later test for both
  sizes being 0, with its diagnostics, is never reached.
\<close>

theorem reallocate_both_zero:
  "pet_reallocate g os s a 0 0 clean = Inr (True, a, False, s)"
  by (simp add: pet_reallocate_def)

text \<open>
  Claim C6.  For a non-empty address and sizes whose unit counts
  \<open>(n + 15) div 16\<close> are equal and below \<open>max_data_units\<close>, \<^verbatim>\<open>_reallocate\<close> returns
  \<^verbatim>\<open>true\<close>, keeps the address, stores \<^verbatim>\<open>false\<close> in \<^verbatim>\<open>addr_changed\<close>, and changes
  nothing but the data bytes: when \<^verbatim>\<open>clean\<close> is set and the new size is larger, exactly
  the bytes from \<^verbatim>\<open>old_nbytes\<close> up to \<^verbatim>\<open>new_nbytes\<close> of the block become 0.
\<close>

theorem reallocate_same_units:
  assumes ok: "params_ok g" and a: "a \<noteq> 0"
    and old: "0 \<le> old_nbytes" and new: "0 \<le> new_nbytes"
    and same: "(old_nbytes + 15) div 16 = (new_nbytes + 15) div 16"
    and small: "(old_nbytes + 15) div 16 < max_data_units g"
  shows "pet_reallocate g os s a old_nbytes new_nbytes clean =
           Inr (True, a, False,
                s\<lparr>mem := (\<lambda>x. if clean \<and> old_nbytes < new_nbytes
                                   \<and> a + old_nbytes \<le> x \<and> x < a + new_nbytes
                                then 0 else mem s x)\<rparr>)"
proof (cases "old_nbytes = new_nbytes")
  case True
  then show ?thesis by (simp add: pet_reallocate_def)
next
  case False
  from small params_ok_mdu [OF ok] have o: "old_nbytes + 15 < 2 ^ 32" by simp
  from small same params_ok_mdu [OF ok] have n: "new_nbytes + 15 < 2 ^ 32" by simp
  have u: "bytes_to_units new_nbytes = bytes_to_units old_nbytes"
    unfolding bytes_to_units_eq [OF new n] bytes_to_units_eq [OF old o] using same by simp
  have nz: "(old_nbytes OR new_nbytes) \<noteq> 0" using False by (auto simp: or_zero_iff)
  have r: "pet_reallocate g os s a old_nbytes new_nbytes clean =
        Inr (True, a, False,
             if clean \<and> new_nbytes > old_nbytes
             then s\<lparr>mem := cleanse (mem s) a old_nbytes new_nbytes\<rparr> else s)"
    using False a nz u by (simp add: pet_reallocate_def Let_def)
  show ?thesis
  proof (cases "clean \<and> new_nbytes > old_nbytes")
    case True
    then have "cleanse (mem s) a old_nbytes new_nbytes
               = (\<lambda>x. if a + old_nbytes \<le> x \<and> x < a + new_nbytes then 0 else mem s x)"
      using old n by (intro cleanse_eq) auto
    with True r show ?thesis by simp
  next
    case False
    with r show ?thesis by auto
  qed
qed

theorem reallocate_same_units_witness:
  "params_ok g4k \<and> (0::int) \<le> 17 \<and> (17 + 15) div 16 = ((30::int) + 15) div 16
   \<and> pet_reallocate g4k os_none init_state 65600 17 30 True =
       Inr (True, 65600, False,
            init_state\<lparr>mem := (\<lambda>x. if True \<and> (17::int) < 30 \<and> 65600 + 17 \<le> x \<and> x < 65600 + 30
                                     then 0 else mem init_state x)\<rparr>)"
proof -
  have ok: "params_ok g4k" unfolding g4k_def by (rule params_ok_4096)
  have h: "(65600::int) \<noteq> 0" "(0::int) \<le> 17" "(0::int) \<le> 30"
    "((17::int) + 15) div 16 = (30 + 15) div 16" by simp_all
  have sm: "((17::int) + 15) div 16 < max_data_units g4k"
    by (simp add: g4k_def init_params_def Let_def usub_def UNIT_SIZE_def)
  from reallocate_same_units [OF ok h sm, of os_none init_state True] ok h
  show ?thesis by simp
qed

section \<open>Classification of blocks by page alignment\<close>

text \<open>
  Claim C8.  Let the page size be a power of two, as \<^verbatim>\<open>sysconf\<close> gives it, and let
  the addresses that \<^verbatim>\<open>mmap\<close> and \<^verbatim>\<open>mremap\<close> answer be page-aligned.  In every state
  that a sequence of requests reaches from the initial state, a block that a request
  hands to its caller (the non-null result of \<^verbatim>\<open>_allocate\<close>, or the new address of a
  \<^verbatim>\<open>_reallocate\<close> that returns \<open>true\<close> with \<^verbatim>\<open>*addr_changed\<close> set) is classified by
  the test of \<^verbatim>\<open>_release\<close> and \<^verbatim>\<open>_reallocate\<close> as the path that made it.  A block
  of fewer than \<open>max_data_units\<close> units comes from the bitmap path: it lies in its page
  at a unit offset from \<open>bm_page_header_size_in_units\<close> up to \<open>units_per_page\<close>, at a
  multiple of \<open>UNIT_SIZE\<close>, and \<^verbatim>\<open>bm_page_from_addr\<close> does not give the address itself.
  A block of \<open>max_data_units\<close> units or more is a mapping of its own, and
  \<^verbatim>\<open>bm_page_from_addr\<close> gives the address itself.  A large block that \<^verbatim>\<open>_reallocate\<close>
  shrinks in place keeps its address and is not a block handed out anew.  The runs
  are those that end without a fault: a run in which the source reads the bytes of a
  block as a page header (the large-to-small reallocation, or a release of an address
  that was never handed out) ends in a fault of the model, and the theorem does not
  speak of what the source does after it.
\<close>

theorem returned_block_classified:
  assumes ok: "params_ok g" and pw: "sys_page_size g = 2 ^ k"
    and oss: "list_all (\<lambda>e. os_aligned g (fst e)) rs"
    and run: "run_requests g init_state rs = Inr s"
    and os: "os_aligned g os"
    and ret: "returned_block g os s r = Some (a, nbytes)"
  shows "if bytes_to_units nbytes < max_data_units g
         then bm_page_from_addr g a \<noteq> a
              \<and> bm_page_header_size_in_units g \<le> ptrdiff_to_units a (bm_page_from_addr g a)
              \<and> ptrdiff_to_units a (bm_page_from_addr g a) < units_per_page g
              \<and> a = bm_page_from_addr g a
                      + ptrdiff_to_units a (bm_page_from_addr g a) * UNIT_SIZE
         else bm_page_from_addr g a = a"
proof -
  have inv: "links_aligned g s"
    using links_aligned_init oss run by (rule links_aligned_run_requests [OF ok])
  note cls = returned_block_paths [OF ok inv os ret]
  show ?thesis
  proof (cases "bytes_to_units nbytes < max_data_units g")
    case True
    with cls obtain p off where "a = p + off * UNIT_SIZE" "page_aligned g p"
      "bm_page_header_size_in_units g \<le> off" "off < units_per_page g"
      by blast
    from small_block_class [OF ok pw this(2,3,4,1)] True show ?thesis by simp
  next
    case False
    with cls show ?thesis by (simp add: page_aligned_def)
  qed
qed

theorem returned_block_classified_witness:
  "run_requests g4k init_state [(os_page 65536, Allocate 2400 False)] = Inr cls_s1
   \<and> returned_block g4k os_none cls_s1 (Allocate 1632 False) = Some (68000, 1632)
   \<and> bytes_to_units 1632 < max_data_units g4k
   \<and> bm_page_from_addr g4k 68000 \<noteq> 68000
   \<and> ptrdiff_to_units 68000 (bm_page_from_addr g4k 68000) = 154
   \<and> returned_block g4k (os_page 131072) cls_s1 (Allocate 8192 False) = Some (131072, 8192)
   \<and> \<not> bytes_to_units 8192 < max_data_units g4k
   \<and> bm_page_from_addr g4k 131072 = 131072"
proof -
  have ok: "params_ok g4k" unfolding g4k_def by (rule params_ok_4096)
  have pw: "sys_page_size g4k = 2 ^ 12" by (simp add: g4k_def init_params_def Let_def)
  have oss: "list_all (\<lambda>e. os_aligned g4k (fst e)) [(os_page 65536, Allocate 2400 False)]"
    by (simp add: os_aligned_4k)
  have small: "bytes_to_units 1632 < max_data_units g4k" by code_simp
  have large: "\<not> bytes_to_units 8192 < max_data_units g4k" by code_simp
  have off: "ptrdiff_to_units 68000 (bm_page_from_addr g4k 68000) = 154" by code_simp
  from returned_block_classified [OF ok pw oss cls_s1_run os_aligned_4k(3) cls_returned(1)] small
  have 1: "bm_page_from_addr g4k 68000 \<noteq> 68000" by simp
  from returned_block_classified [OF ok pw oss cls_s1_run os_aligned_4k(2) cls_returned(2)] large
  have 2: "bm_page_from_addr g4k 131072 = 131072" by simp
  from 1 2 small large off cls_s1_run cls_returned show ?thesis by simp
qed

section \<open>The debug allocator: a shrinking reallocation\<close>

text \<open>
  Claim C9, as stated, fails: \<^verbatim>\<open>check_region\<close> looks at the \<^verbatim>\<open>BUBBLEWRAP\<close> bytes after
  the new block and no further.  In the run below a block of 100 bytes whose only
  byte other than \<^verbatim>\<open>0xFF\<close> is the byte at index 50 is reallocated to 8 bytes, without
  \<open>clean\<close>.  The call returns \<open>true\<close> with the new block at 5048 and \<open>addr_changed\<close> set;
  the copy has put the byte at index 50 of the new block, which is behind the upper
  red zone (indices 8 to 39); and the release of the new address with 8 bytes finds
  no damage and returns, with \<^verbatim>\<open>nullptr\<close> stored in \<^verbatim>\<open>*addr_ptr\<close>.
\<close>

theorem dbg_reallocate_shrink_undetected:
  "dbg_reallocate (Some 5000) dbg_st2 1000 100 8 False = Inr (True, 5048, True, dbg_st3)
   \<and> dmem dbg_st2 (1000 + 50) = 7
   \<and> dmem dbg_st3 (5048 + 50) = 7
   \<and> \<not> check_region (dmem dbg_st3) 5048 8
   \<and> map_sum id fst (dbg_release dbg_st3 5048 8) = Inr 0"
proof -
  have "dmem dbg_st2 (1000 + 50) = 7"
    by (simp add: dbg_st2_def)
  moreover have "dmem dbg_st3 (5048 + 50) = 7"
    by code_simp
  moreover have "\<not> check_region (dmem dbg_st3) 5048 8"
    by code_simp
  moreover have "map_sum id fst (dbg_release dbg_st3 5048 8) = Inr 0"
    by code_simp
  ultimately show ?thesis
    using dbg_st2_run by simp
qed

text \<open>
  Claim C9, amended.  \<^verbatim>\<open>_reallocate\<close> of the debug allocator copies \<open>old_nbytes\<close> bytes
  into the new block whatever the new size is.  Let a reallocation without \<open>clean\<close> of
  a non-null block from \<open>old_nbytes\<close> to \<open>new_nbytes\<close> with \<open>0 < new_nbytes < old_nbytes\<close>
  return \<open>true\<close>, the new region given by the C library being disjoint from the old
  block.  Then the new address is the block of the new region, \<open>addr_changed\<close> is set,
  and every byte \<open>j < old_nbytes\<close> of the old block is at index \<open>j\<close> of the new block.
  The release of the new address with \<open>new_nbytes\<close> ends the process with
  \<^verbatim>\<open>exit(1)\<close> if and only if a byte of the old block at an index \<open>i\<close> with
  \<open>new_nbytes \<le> i < new_nbytes + BUBBLEWRAP\<close>, the indices that the copy puts into the
  upper red zone of the new block, is not \<^verbatim>\<open>0xFF\<close>.  Bytes copied at indices from
  \<open>new_nbytes + BUBBLEWRAP\<close> on fall behind the new region, where \<^verbatim>\<open>check_region\<close> does
  not look.
\<close>

theorem dbg_reallocate_shrink_detected:
  assumes re: "dbg_reallocate (Some r) st a old_nbytes new_nbytes False = Inr (True, a', ch, st')"
    and a: "a \<noteq> 0"
    and new: "0 < new_nbytes" and lt: "new_nbytes < old_nbytes" and old: "old_nbytes < 2 ^ 32"
    and disj: "r + calc_memsize new_nbytes \<le> a \<or> a + old_nbytes \<le> r"
  shows "a' = block_from_region r \<and> ch
         \<and> (\<forall>j. 0 \<le> j \<and> j < old_nbytes \<longrightarrow> dmem st' (a' + j) = dmem st (a + j))
         \<and> (dbg_release st' a' new_nbytes = Inl Exit \<longleftrightarrow>
              (\<exists>i. new_nbytes \<le> i \<and> i < old_nbytes \<and> i < new_nbytes + BUBBLEWRAP
                   \<and> dmem st (a + i) \<noteq> 255))"
proof -
  from re a lt obtain new_addr st1 where
    al: "dbg_allocate (Some r) st new_nbytes False = Inr (new_addr, st1)"
    by (cases "dbg_allocate (Some r) st new_nbytes False")
       (auto simp: dbg_reallocate_def bind_f_def)
  have nb: "0 \<le> new_nbytes" "new_nbytes < 2 ^ 32" using new lt old by auto
  from dbg_allocate_result [OF al nb] have
    na: "new_addr = r + 48" and ms: "calc_memsize new_nbytes = new_nbytes + 80"
    and out: "\<And>x. x < r \<or> r + calc_memsize new_nbytes \<le> x \<Longrightarrow> dmem st1 x = dmem st x"
    and zone: "\<And>x. (r + 16 \<le> x \<and> x < r + 48)
                    \<or> (r + 48 + new_nbytes \<le> x \<and> x < r + 80 + new_nbytes)
                 \<Longrightarrow> dmem st1 x = 255"
    by blast+
  define st2 where "st2 = st1\<lparr>dmem := memcpy (dmem st1) new_addr a old_nbytes\<rparr>"
  from re a lt al have nz: "new_addr \<noteq> 0"
    by (auto simp: dbg_reallocate_def bind_f_def split: if_splits)
  from re a lt al nz obtain a2 st3 where
    rl: "dbg_release st2 a old_nbytes = Inr (a2, st3)"
    by (cases "dbg_release st2 a old_nbytes")
       (auto simp: dbg_reallocate_def bind_f_def Let_def st2_def)
  have m3: "dmem st3 = dmem st2"
    using rl a by (auto simp: dbg_release_def split: if_splits)
  from re a lt al nz rl have res: "a' = new_addr" "ch" and st': "st' = st3"
    by (auto simp: dbg_reallocate_def bind_f_def Let_def st2_def)
  have m': "dmem st' = memcpy (dmem st1) a' a old_nbytes"
    by (simp add: st' m3 st2_def res)
  have copy: "dmem st' (a' + j) = dmem st (a + j)" if j: "0 \<le> j" "j < old_nbytes" for j
  proof -
    have "dmem st' (a' + j) = dmem st1 (a + j)"
      using j by (simp add: m' memcpy_def)
    also have "\<dots> = dmem st (a + j)"
      using disj j by (intro out) auto
    finally show ?thesis .
  qed
  let ?bad = "\<exists>i. new_nbytes \<le> i \<and> i < old_nbytes \<and> i < new_nbytes + BUBBLEWRAP
                  \<and> dmem st (a + i) \<noteq> 255"
  have rel: "dbg_release st' a' new_nbytes = Inl Exit \<longleftrightarrow> check_region (dmem st') a' new_nbytes"
    using nz res by (simp add: dbg_release_def)
  have "check_region (dmem st') a' new_nbytes" if ?bad
  proof -
    from that obtain i where i: "new_nbytes \<le> i" "i < old_nbytes" "i < new_nbytes + 32"
      and byte: "dmem st (a + i) \<noteq> 255"
      by (auto simp: BUBBLEWRAP_def)
    have i0: "0 \<le> i" using new i by simp
    have "dmem st' (a' + i) \<noteq> 255"
      using copy [OF i0 i(2)] byte by simp
    then show ?thesis
      using i by (intro check_region_upper [OF ms, where i = i]) auto
  qed
  moreover have "\<not> check_region (dmem st') a' new_nbytes" if nobad: "\<not> ?bad"
  proof (rule check_region_intact [OF ms])
    fix x assume x: "a' - 32 \<le> x" "x < a'"
    then have "dmem st' x = dmem st1 x"
      by (simp add: m' memcpy_def)
    also have "\<dots> = 255"
      using x by (intro zone) (auto simp: res na)
    finally show "dmem st' x = 255" .
  next
    fix x assume x: "a' + new_nbytes \<le> x" "x < a' + new_nbytes + 32"
    show "dmem st' x = 255"
    proof (cases "x < a' + old_nbytes")
      case True
      define i where "i = x - a'"
      have i: "new_nbytes \<le> i" "i < old_nbytes" "i < new_nbytes + BUBBLEWRAP" "0 \<le> i"
        using x True new by (auto simp: i_def BUBBLEWRAP_def)
      have "dmem st' (a' + i) = dmem st (a + i)"
        using i by (intro copy) auto
      moreover have "dmem st (a + i) = 255"
        using nobad i by blast
      ultimately show ?thesis by (simp add: i_def)
    next
      case False
      then have "dmem st' x = dmem st1 x"
        by (simp add: m' memcpy_def)
      also have "\<dots> = 255"
        using x by (intro zone) (auto simp: res na)
      finally show ?thesis .
    qed
  qed
  ultimately have "check_region (dmem st') a' new_nbytes \<longleftrightarrow> ?bad" by blast
  with rel res na copy show ?thesis
    by (simp add: block_from_region_def MemBlockInfo_size_def BUBBLEWRAP_def)
qed

theorem dbg_reallocate_shrink_detected_witness:
  "dbg_reallocate (Some 5000) dbg_st0 1000 20 8 False = Inr (True, 5048, True, dbg_st1)
   \<and> dmem dbg_st0 (1000 + 10) = 7
   \<and> dmem dbg_st1 (5048 + 10) = 7
   \<and> dbg_release dbg_st1 5048 8 = Inl Exit"
proof -
  have byte: "dmem dbg_st0 (1000 + 10) = 7"
    by (simp add: dbg_st0_def)
  have "5048 = block_from_region 5000 \<and> True
        \<and> (\<forall>j. 0 \<le> j \<and> j < 20 \<longrightarrow> dmem dbg_st1 (5048 + j) = dmem dbg_st0 (1000 + j))
        \<and> (dbg_release dbg_st1 5048 8 = Inl Exit \<longleftrightarrow>
             (\<exists>i. 8 \<le> i \<and> i < 20 \<and> i < 8 + BUBBLEWRAP \<and> dmem dbg_st0 (1000 + i) \<noteq> 255))"
    by (intro dbg_reallocate_shrink_detected [OF dbg_st0_run])
       (simp_all add: calc_memsize_def MemBlockInfo_size_def BUBBLEWRAP_def)
  then have all: "\<forall>j. 0 \<le> j \<and> j < 20 \<longrightarrow> dmem dbg_st1 (5048 + j) = dmem dbg_st0 (1000 + j)"
      and rel: "dbg_release dbg_st1 5048 8 = Inl Exit \<longleftrightarrow>
             (\<exists>i. 8 \<le> i \<and> i < 20 \<and> i < 8 + BUBBLEWRAP \<and> dmem dbg_st0 (1000 + i) \<noteq> 255)"
    by blast+
  from all [rule_format, of 10] have c: "dmem dbg_st1 (5048 + 10) = dmem dbg_st0 (1000 + 10)"
    by simp
  have "\<exists>i. 8 \<le> i \<and> i < 20 \<and> i < 8 + BUBBLEWRAP \<and> dmem dbg_st0 (1000 + i) \<noteq> 255"
    using byte by (intro exI [where x = 10]) (simp add: BUBBLEWRAP_def)
  with rel have "dbg_release dbg_st1 5048 8 = Inl Exit" by simp
  with byte c dbg_st0_run show ?thesis by simp
qed

end
